theory Spec2Isabelle
  imports Main "HOL-Library.Word" "HOL-Library.AList"
begin

unbundle bit_operations_syntax

section \<open>Go values: bytes, strings, errors and panics\<close>

text \<open>
  A Go \<open>string\<close> is a sequence of bytes and \<open>len\<close> counts bytes: it is modelled as
  \<open>string\<close> (a list of 8-bit characters). A \<open>[]byte\<close> is a list of 8-bit words. Go's
  \<open>int\<close> is modelled as \<open>int\<close>: the only sums the codec forms are \<open>pos + n\<close> with
  \<open>0 \<le> pos \<le> len(message)\<close>; where such a sum could wrap around in 64 bits it is the
  upper bound of a slice expression, which panics with or without the wrap-around, and
  panics are modelled without the numbers of their message.
\<close>

type_synonym byte = "8 word"

datatype panic =
    IndexOutOfRange          \<comment> \<open>runtime error: index out of range\<close>
  | SliceBoundsOutOfRange    \<comment> \<open>runtime error: slice bounds out of range\<close>

datatype error =
    MTIConfigMissing         \<comment> \<open>Parse: "MTI configuration missing"\<close>
  | BitmapConfigMissing      \<comment> \<open>Parse: "bitmap configuration missing"\<close>
  | InvalidByteError char    \<comment> \<open>encoding/hex: invalid byte\<close>
  | ErrLength                \<comment> \<open>encoding/hex: odd length hex string\<close>
  | FieldConfigMissing int   \<comment> \<open>Parse: "field %d configuration missing"\<close>
  | UnsupportedLenType int   \<comment> \<open>Parse: "unsupported length type for field %d"\<close>
  | ElementEmpty             \<comment> \<open>ComposeMessage: "iso8583 element is empty"\<close>
  | MTIMissing               \<comment> \<open>ComposeMessage: "MTI harus ada di field 0"\<close>
  | ConfigNotFound int       \<comment> \<open>ComposeMessage: "config untuk field %d tidak ditemukan"\<close>
  | UnknownLenType int       \<comment> \<open>ComposeMessage: "tipe panjang tidak dikenal untuk field %d"\<close>
  | ErrSyntax                \<comment> \<open>strconv: invalid syntax\<close>
  | ErrRange                 \<comment> \<open>strconv: value out of range\<close>
  | SpecNotLoaded            \<comment> \<open>NewISO8583: "load iso 8583 spesification first"\<close>
  | ReadError                \<comment> \<open>an error of the framed reader\<close>

text \<open>
  What a Go call does: it returns a value with a nil error (\<open>Ok\<close>), returns a non-nil
  error (\<open>Err\<close>), or panics (\<open>Panic\<close>); nothing in the package recovers from a panic.
\<close>

datatype 'a result = Ok 'a | Err error | Panic panic

text \<open>
  The slice expression \<open>s[lo:hi]\<close> on a string. The runtime first checks
  \<open>0 \<le> hi \<le> len(s)\<close>, then \<open>0 \<le> lo \<le> hi\<close>; either failure is the panic
  "slice bounds out of range", here \<open>None\<close>.
\<close>

definition slice :: "string \<Rightarrow> int \<Rightarrow> int \<Rightarrow> string option" where
  "slice s lo hi =
     (if hi < 0 \<or> int (length s) < hi then None
      else if lo < 0 \<or> hi < lo then None
      else Some (take (nat (hi - lo)) (drop (nat lo) s)))"

subsection \<open>encoding/hex\<close>

definition hextable :: string where
  "hextable = ''0123456789abcdef''"

definition isHexChar :: "char \<Rightarrow> bool" where
  "isHexChar c =
     (let n = (of_char c :: nat)
      in (48 \<le> n \<and> n \<le> 57) \<or> (97 \<le> n \<and> n \<le> 102) \<or> (65 \<le> n \<and> n \<le> 70))"

text \<open>The value of a hexadecimal digit, in either case (\<open>reverseHexTable\<close>).\<close>

definition fromHexChar :: "char \<Rightarrow> byte" where
  "fromHexChar c =
     (let n = (of_char c :: nat)
      in if 48 \<le> n \<and> n \<le> 57 then of_nat (n - 48)
         else if 97 \<le> n \<and> n \<le> 102 then of_nat (n - 97 + 10)
         else of_nat (n - 65 + 10))"

text \<open>
  \<open>hex.DecodeString\<close>: pairs of digits left to right; the first invalid character
  is an \<open>InvalidByteError\<close>, a lone last digit is \<open>ErrLength\<close> (after it has been
  checked to be a digit).
\<close>

fun DecodeString :: "string \<Rightarrow> error + byte list" where
  "DecodeString [] = Inr []"
| "DecodeString [p] = (if \<not> isHexChar p then Inl (InvalidByteError p) else Inl ErrLength)"
| "DecodeString (p # q # rest) =
     (if \<not> isHexChar p then Inl (InvalidByteError p)
      else if \<not> isHexChar q then Inl (InvalidByteError q)
      else (case DecodeString rest of
              Inl e \<Rightarrow> Inl e
            | Inr bs \<Rightarrow> Inr ((push_bit 4 (fromHexChar p) OR fromHexChar q) # bs)))"

text \<open>\<open>hex.EncodeToString\<close>: two lower-case digits per byte.\<close>

fun EncodeToString :: "byte list \<Rightarrow> string" where
  "EncodeToString [] = []"
| "EncodeToString (v # bs) =
     hextable ! unat (drop_bit 4 v) # hextable ! unat (v AND 0x0f) # EncodeToString bs"

text \<open>
  \<open>strings.ToUpper\<close> on a string of ASCII characters (it is only applied to the
  output of \<open>EncodeToString\<close>): each of \<open>a\<close> to \<open>z\<close> becomes its capital.
\<close>

definition toUpperChar :: "char \<Rightarrow> char" where
  "toUpperChar c =
     (case map_of (zip ''abcdefghijklmnopqrstuvwxyz'' ''ABCDEFGHIJKLMNOPQRSTUVWXYZ'') c of
        Some u \<Rightarrow> u
      | None \<Rightarrow> c)"

definition ToUpper :: "string \<Rightarrow> string" where
  "ToUpper s = map toUpperChar s"

subsection \<open>strconv and fmt\<close>

definition isDigit :: "char \<Rightarrow> bool" where
  "isDigit c = (48 \<le> (of_char c :: nat) \<and> (of_char c :: nat) \<le> 57)"

fun digitsVal :: "nat \<Rightarrow> string \<Rightarrow> nat" where
  "digitsVal n [] = n"
| "digitsVal n (ch # cs) = digitsVal (n * 10 + ((of_char ch :: nat) - 48)) cs"

text \<open>
  \<open>strconv.Atoi\<close> on a 64-bit platform, as the pair it returns: an optional sign and
  decimal digits; on a syntax error the value is 0; a value outside the 64-bit range is
  clamped and comes with \<open>ErrRange\<close>.
\<close>

definition Atoi :: "string \<Rightarrow> int \<times> error option" where
  "Atoi s =
     (let body = (if s \<noteq> [] \<and> (hd s = CHR ''-'' \<or> hd s = CHR ''+'') then tl s else s)
      in if body = [] \<or> \<not> list_all isDigit body then (0, Some ErrSyntax)
         else
           (let n = int (digitsVal 0 body);
                v = (if hd s = CHR ''-'' then - n else n)
            in if 2 ^ 63 - 1 < v then (2 ^ 63 - 1, Some ErrRange)
               else if v < - (2 ^ 63) then (- (2 ^ 63), Some ErrRange)
               else (v, None)))"

text \<open>\<open>strconv.Itoa\<close> of a number that is not negative.\<close>

fun Itoa :: "nat \<Rightarrow> string" where
  "Itoa n =
     (if n < 10 then [''0123456789'' ! n]
      else Itoa (n div 10) @ [''0123456789'' ! (n mod 10)])"

declare Itoa.simps [simp del]

text \<open>
  \<open>fmt.Sprintf("%0Wd", n)\<close> for \<open>n \<ge> 0\<close>: the decimal digits, with zeros on the
  left up to width \<open>W\<close>; a longer number is printed whole.
\<close>

definition Sprintf_0d :: "nat \<Rightarrow> nat \<Rightarrow> string" where
  "Sprintf_0d W n = replicate (W - length (Itoa n)) (CHR ''0'') @ Itoa n"

text \<open>
  \<open>utf8.RuneCountInString\<close>. \<open>runeSize c cs\<close> is the number of bytes of the rune
  that starts with byte \<open>c\<close> followed by \<open>cs\<close>: an ASCII byte, an invalid or a short
  encoding count as one rune of one byte.
\<close>

definition inRange :: "nat \<Rightarrow> nat \<Rightarrow> char \<Rightarrow> bool" where
  "inRange lo hi c = (lo \<le> (of_char c :: nat) \<and> (of_char c :: nat) \<le> hi)"

definition runeSize :: "char \<Rightarrow> string \<Rightarrow> nat" where
  "runeSize c cs =
     (let n = (of_char c :: nat);
          sz = (if n < 0x80 then 1 else if n < 0xC2 then 0 else if n < 0xE0 then 2
                  else if n < 0xF0 then 3 else if n < 0xF5 then 4 else 0);
          lo = (if n = 0xE0 then 0xA0 else if n = 0xF0 then 0x90 else 0x80);
          hi = (if n = 0xED then 0x9F else if n = 0xF4 then 0x8F else 0xBF)
      in if sz \<le> 1 then 1
         else if length cs < sz - 1 then 1
         else if \<not> inRange lo hi (cs ! 0) then 1
         else if sz = 2 then 2
         else if \<not> inRange 0x80 0xBF (cs ! 1) then 1
         else if sz = 3 then 3
         else if \<not> inRange 0x80 0xBF (cs ! 2) then 1
         else 4)"

fun RuneCountInString :: "string \<Rightarrow> nat" where
  "RuneCountInString [] = 0"
| "RuneCountInString (c # cs) = Suc (RuneCountInString (drop (runeSize c cs - 1) cs))"

text \<open>
  \<open>fmt.Sprintf("%0*s", w, s)\<close> and \<open>fmt.Sprintf("%-*s", w, s)\<close>. The width is
  measured in runes, not bytes. A width beyond a million is refused with the text
  \<open>%!(BADWIDTH)\<close>; a negative width is its absolute value with the \<open>-\<close> flag, under
  which padding is spaces on the right. With the \<open>0\<close> flag and no \<open>-\<close> flag the padding
  on the left is zeros, as the comment in \<open>padValue\<close> expects.
\<close>

definition Sprintf_pad :: "bool \<Rightarrow> int \<Rightarrow> string \<Rightarrow> string" where
  "Sprintf_pad minusFlag w s =
     (if 1000000 < w \<or> w < - 1000000 then ''%!(BADWIDTH)'' @ s
      else
        (let right = (minusFlag \<or> w < 0);
             n = nat \<bar>w\<bar> - RuneCountInString s
         in if right then s @ replicate n (CHR '' '')
            else replicate n (CHR ''0'') @ s))"

section \<open>The field schema and the message object\<close>

record FieldConfig =
  ContentType :: string
  Label :: string
  LenType :: string
  MaxLen :: int

text \<open>
  The package variable \<open>isoConfig\<close>, a \<open>map[int]FieldConfig\<close> that is only read by the
  codec, is a parameter of every operation. Reading a nil map is reading an empty one.
\<close>

type_synonym schema = "int \<rightharpoonup> FieldConfig"

text \<open>
  The state of an \<open>isoObject\<close> is its \<open>isoElement\<close>, a \<open>map[int]string\<close> (the fields
  \<open>MTI\<close> and \<open>Bitmap\<close> of the struct are never read or written). The map is finite and
  is iterated over, so it is an association list: \<open>map_of\<close> looks a key up,
  \<open>AList.update\<close> stores a value. The order of the list stands for the order in which
  Go happens to iterate; no result below depends on it.
\<close>

type_synonym elements = "(int \<times> string) list"

definition GetField :: "elements \<Rightarrow> int \<Rightarrow> string" where
  "GetField els index = (case map_of els index of None \<Rightarrow> [] | Some v \<Rightarrow> v)"

text \<open>\<open>SetField\<close> stores \<open>fmt.Sprint(val)\<close>; \<open>val\<close> here is that string.\<close>

definition SetField :: "int \<Rightarrow> string \<Rightarrow> elements \<Rightarrow> elements" where
  "SetField index val els = AList.update index val els"

definition SetMTI :: "string \<Rightarrow> elements \<Rightarrow> elements" where
  "SetMTI val els = AList.update 0 val els"

definition GetMTI :: "elements \<Rightarrow> string" where
  "GetMTI els = GetField els 0"

definition Clear :: "elements \<Rightarrow> elements" where
  "Clear els = []"

section \<open>ComposeMessage\<close>

text \<open>\<open>padValue\<close>; \<open>None\<close> is the panic of \<open>value[:maxLen]\<close> when \<open>maxLen\<close> is negative.\<close>

definition padValue :: "string \<Rightarrow> int \<Rightarrow> string \<Rightarrow> string option" where
  "padValue val maxLen contentType =
     (if maxLen < int (length val) then slice val 0 maxLen
      else if contentType = ''n'' then Some (Sprintf_pad False maxLen val)
      else Some (Sprintf_pad True maxLen val))"

text \<open>The highest key of the map, or 0 (lines 138 to 143).\<close>

definition maxFieldOf :: "elements \<Rightarrow> int" where
  "maxFieldOf els = foldl (\<lambda>maxField k. if maxField < k then k else maxField) 0 (map fst els)"

text \<open>
  The loop that sets the bit of every key above 1 (lines 160 to 166); \<open>None\<close> is the
  panic of \<open>bitmap[byteIndex]\<close> out of range.
\<close>

fun setBits :: "int list \<Rightarrow> byte list \<Rightarrow> byte list option" where
  "setBits [] bitmap = Some bitmap"
| "setBits (field # rest) bitmap =
     (if 1 < field then
        (let byteIndex = (field - 1) div 8;
             bitIndex = (field - 1) mod 8
         in if int (length bitmap) \<le> byteIndex then None
            else setBits rest
                   (bitmap[nat byteIndex :=
                      bitmap ! nat byteIndex OR push_bit (nat (7 - bitIndex)) 1]))
      else setBits rest bitmap)"

text \<open>The bitmap bytes of a message object (lines 138 to 166).\<close>

definition composeBitmap :: "elements \<Rightarrow> byte list option" where
  "composeBitmap els =
     (let useSecondaryBitmap = (64 < maxFieldOf els);
          bitmapSize = (if useSecondaryBitmap then 16 else 8);
          bitmap = replicate bitmapSize (0 :: byte);
          bitmap = (if useSecondaryBitmap then bitmap[0 := bitmap ! 0 OR 0x80] else bitmap)
      in setBits (map fst els) bitmap)"

text \<open>The loop over the data fields 2 to 128 (lines 173 to 195).\<close>

function composeFields :: "schema \<Rightarrow> elements \<Rightarrow> int \<Rightarrow> string \<Rightarrow> string result" where
  "composeFields isoConfig els i message =
     (if i \<le> 128 then
        (case map_of els i of
           None \<Rightarrow> composeFields isoConfig els (i + 1) message
         | Some val \<Rightarrow>
             (case isoConfig i of
                None \<Rightarrow> Err (ConfigNotFound i)
              | Some fieldConfig \<Rightarrow>
                  if LenType fieldConfig = ''fixed'' then
                    (case padValue val (MaxLen fieldConfig) (ContentType fieldConfig) of
                       None \<Rightarrow> Panic SliceBoundsOutOfRange
                     | Some padded \<Rightarrow> composeFields isoConfig els (i + 1) (message @ padded))
                  else if LenType fieldConfig = ''llvar'' then
                    composeFields isoConfig els (i + 1)
                      (message @ Sprintf_0d 2 (length val) @ val)
                  else if LenType fieldConfig = ''lllvar'' then
                    composeFields isoConfig els (i + 1)
                      (message @ Sprintf_0d 3 (length val) @ val)
                  else Err (UnknownLenType i)))
      else Ok message)"
  by pat_completeness auto
termination
  by (relation "measure (\<lambda>(isoConfig, els, i, message). nat (129 - i))") auto

declare composeFields.simps [simp del]

definition ComposeMessage :: "schema \<Rightarrow> elements \<Rightarrow> string result" where
  "ComposeMessage isoConfig els =
     (if els = [] then Err ElementEmpty
      else
        (case map_of els 0 of
           None \<Rightarrow> Err MTIMissing
         | Some mti \<Rightarrow>
             (case composeBitmap els of
                None \<Rightarrow> Panic IndexOutOfRange
              | Some bitmap \<Rightarrow>
                  composeFields isoConfig els 2 (mti @ ToUpper (EncodeToString bitmap)))))"

section \<open>Parse\<close>

text \<open>
  The test of the bit of field \<open>i\<close> (line 94); \<open>None\<close> is the panic of
  \<open>bitmapBytes[(i-1)/8]\<close> out of range.
\<close>

definition bitTest :: "byte list \<Rightarrow> int \<Rightarrow> bool option" where
  "bitTest bitmapBytes i =
     (if (i - 1) div 8 < 0 \<or> int (length bitmapBytes) \<le> (i - 1) div 8 then None
      else Some (0 < (bitmapBytes ! nat ((i - 1) div 8)) AND push_bit (nat (7 - (i - 1) mod 8)) 1))"

text \<open>
  A variable-length field with a prefix of \<open>n\<close> characters (the branches \<open>llvar\<close> and
  \<open>lllvar\<close>, which differ in \<open>n\<close> only). The error of \<open>Atoi\<close> is discarded.
\<close>

definition parseVar :: "int \<Rightarrow> string \<Rightarrow> int \<Rightarrow> int \<Rightarrow> elements \<Rightarrow> int result \<times> elements" where
  "parseVar n message i pos els =
     (case slice message pos (pos + n) of
        None \<Rightarrow> (Panic SliceBoundsOutOfRange, els)
      | Some pre \<Rightarrow>
          (let len = fst (Atoi pre);
               pos = pos + n
           in case slice message pos (pos + len) of
                None \<Rightarrow> (Panic SliceBoundsOutOfRange, els)
              | Some v \<Rightarrow> (Ok (pos + len), AList.update i v els)))"

text \<open>
  The body of the loop for a field whose bit is set (lines 95 to 116): the new cursor and
  the updated map, or the failure and the map as it is then.
\<close>

definition parseField :: "schema \<Rightarrow> string \<Rightarrow> int \<Rightarrow> int \<Rightarrow> elements \<Rightarrow> int result \<times> elements" where
  "parseField isoConfig message i pos els =
     (case isoConfig i of
        None \<Rightarrow> (Err (FieldConfigMissing i), els)
      | Some fieldConfig \<Rightarrow>
          if LenType fieldConfig = ''fixed'' then
            (case slice message pos (pos + MaxLen fieldConfig) of
               None \<Rightarrow> (Panic SliceBoundsOutOfRange, els)
             | Some v \<Rightarrow> (Ok (pos + MaxLen fieldConfig), AList.update i v els))
          else if LenType fieldConfig = ''llvar'' then parseVar 2 message i pos els
          else if LenType fieldConfig = ''lllvar'' then parseVar 3 message i pos els
          else (Err (UnsupportedLenType i), els))"

text \<open>The loop over the field indices 2 to 128 (lines 93 to 118), with the final cursor.\<close>

function parseFields ::
  "schema \<Rightarrow> string \<Rightarrow> byte list \<Rightarrow> int \<Rightarrow> int \<Rightarrow> elements \<Rightarrow> int result \<times> elements" where
  "parseFields isoConfig message bitmapBytes i pos els =
     (if i \<le> 128 then
        (case bitTest bitmapBytes i of
           None \<Rightarrow> (Panic IndexOutOfRange, els)
         | Some False \<Rightarrow> parseFields isoConfig message bitmapBytes (i + 1) pos els
         | Some True \<Rightarrow>
             (case parseField isoConfig message i pos els of
                (Ok pos', els') \<Rightarrow> parseFields isoConfig message bitmapBytes (i + 1) pos' els'
              | (Err e, els') \<Rightarrow> (Err e, els')
              | (Panic p, els') \<Rightarrow> (Panic p, els')))
      else (Ok pos, els))"
  by pat_completeness auto
termination
  by (relation "measure (\<lambda>(isoConfig, message, bitmapBytes, i, pos, els). nat (129 - i))") auto

declare parseFields.simps [simp del]

text \<open>
  \<open>Parse\<close> with the final value of its local cursor \<open>pos\<close>: the MTI, the bitmap, then
  the fields. The map is written as the parse goes, so the second component is the map
  as \<open>Parse\<close> leaves it, also when it fails.
\<close>

definition Parse_pos :: "schema \<Rightarrow> string \<Rightarrow> elements \<Rightarrow> int result \<times> elements" where
  "Parse_pos isoConfig message els =
     (case isoConfig 0 of
        None \<Rightarrow> (Err MTIConfigMissing, els)
      | Some mtiConfig \<Rightarrow>
          (case slice message 0 (MaxLen mtiConfig) of
             None \<Rightarrow> (Panic SliceBoundsOutOfRange, els)
           | Some mti \<Rightarrow>
               (let els = AList.update 0 mti els;
                    pos = MaxLen mtiConfig
                in case isoConfig 1 of
                     None \<Rightarrow> (Err BitmapConfigMissing, els)
                   | Some bitmapConfig \<Rightarrow>
                       (case slice message pos (pos + MaxLen bitmapConfig) of
                          None \<Rightarrow> (Panic SliceBoundsOutOfRange, els)
                        | Some bitmapHex \<Rightarrow>
                            (let els = AList.update 1 bitmapHex els
                             in case DecodeString bitmapHex of
                                  Inl err \<Rightarrow> (Err err, els)
                                | Inr bitmapBytes \<Rightarrow>
                                    parseFields isoConfig message bitmapBytes 2
                                      (pos + MaxLen bitmapConfig) els)))))"

text \<open>\<open>Parse\<close>: what it returns (nil, an error or a panic) and the map afterwards.\<close>

definition Parse :: "schema \<Rightarrow> string \<Rightarrow> elements \<Rightarrow> unit result \<times> elements" where
  "Parse isoConfig message els =
     (case Parse_pos isoConfig message els of
        (Ok pos, els') \<Rightarrow> (Ok (), els')
      | (Err e, els') \<Rightarrow> (Err e, els')
      | (Panic p, els') \<Rightarrow> (Panic p, els'))"

text \<open>
  The fields that the loop, started at index \<open>i\<close>, reads: the indices from \<open>i\<close> to 128
  whose bit test succeeds with a set bit. From 2 on these are the fields that the bitmap
  indicates present.
\<close>

definition presentFrom :: "byte list \<Rightarrow> int \<Rightarrow> int \<Rightarrow> bool" where
  "presentFrom bitmapBytes i k = (i \<le> k \<and> k \<le> 128 \<and> bitTest bitmapBytes k = Some True)"

text \<open>
  The reads of the loop on a message, in order, as a trace of the loop above: for every
  field whose slice expressions (lines 102, 105 to 107, 110 to 112) succeed, the field
  index, the index in the message where the read ends (the value of \<open>pos\<close> after the
  field), and the text stored under the field index. The trace ends where the loop ends,
  returns or panics. It is used to say which reads a shorter input still contains.
\<close>

function loopReads ::
  "schema \<Rightarrow> string \<Rightarrow> byte list \<Rightarrow> int \<Rightarrow> int \<Rightarrow> (int \<times> int \<times> string) list" where
  "loopReads isoConfig message bitmapBytes i pos =
     (if i \<le> 128 then
        (case bitTest bitmapBytes i of
           None \<Rightarrow> []
         | Some False \<Rightarrow> loopReads isoConfig message bitmapBytes (i + 1) pos
         | Some True \<Rightarrow>
             (case parseField isoConfig message i pos [] of
                (Ok pos', els') \<Rightarrow>
                  (i, pos', GetField els' i) # loopReads isoConfig message bitmapBytes (i + 1) pos'
              | (Err e, els') \<Rightarrow> []
              | (Panic p, els') \<Rightarrow> []))
      else [])"
  by pat_completeness auto
termination
  by (relation "measure (\<lambda>(isoConfig, message, bitmapBytes, i, pos). nat (129 - i))") auto

declare loopReads.simps [simp del]

text \<open>
  The reads of \<open>Parse\<close> on a message: the MTI (line 76), the bitmap text (line 85), then
  the reads of the loop; again the trace ends where \<open>Parse\<close> returns or panics.
\<close>

definition parseReads :: "schema \<Rightarrow> string \<Rightarrow> (int \<times> int \<times> string) list" where
  "parseReads isoConfig message =
     (case isoConfig 0 of
        None \<Rightarrow> []
      | Some mtiConfig \<Rightarrow>
          (case slice message 0 (MaxLen mtiConfig) of
             None \<Rightarrow> []
           | Some mti \<Rightarrow>
               (let pos = MaxLen mtiConfig
                in (0, pos, mti) #
                   (case isoConfig 1 of
                      None \<Rightarrow> []
                    | Some bitmapConfig \<Rightarrow>
                        (case slice message pos (pos + MaxLen bitmapConfig) of
                           None \<Rightarrow> []
                         | Some bitmapHex \<Rightarrow>
                             (1, pos + MaxLen bitmapConfig, bitmapHex) #
                             (case DecodeString bitmapHex of
                                Inl err \<Rightarrow> []
                              | Inr bitmapBytes \<Rightarrow>
                                  loopReads isoConfig message bitmapBytes 2
                                    (pos + MaxLen bitmapConfig)))))))"

section \<open>The dispatch engine\<close>

text \<open>
  A \<open>TcpHandler\<close> is a Go function on the message object; it is modelled by its effect
  on the object's map, so a handler here returns and touches nothing else. A \<open>nil\<close>
  handler is \<open>None\<close>. Reading \<open>handlerChain[key]\<close> gives \<open>nil\<close> both for a key that is
  absent and for a key registered with a \<open>nil\<close> handler, so the map of handlers is a map
  \<open>string \<rightharpoonup> TcpHandler\<close> in which \<open>None\<close> stands for both.
\<close>

type_synonym TcpHandler = "elements \<Rightarrow> elements"

record TCPIso8583Engine =
  FieldNumber :: "int list"
  Timeout :: int
  tcpHandlerGroup :: "string \<rightharpoonup> TcpHandler"

definition GetEngine :: "int \<Rightarrow> int list \<Rightarrow> TCPIso8583Engine" where
  "GetEngine readerTimeout fieldNumberKey =
     \<lparr>FieldNumber = fieldNumberKey, Timeout = readerTimeout, tcpHandlerGroup = Map.empty\<rparr>"

text \<open>\<open>AddHandler\<close>: the key is \<open>strings.Join(key, "")\<close>.\<close>

definition AddHandler :: "TcpHandler option \<Rightarrow> string list \<Rightarrow> TCPIso8583Engine \<Rightarrow> TCPIso8583Engine" where
  "AddHandler h key t = t\<lparr>tcpHandlerGroup := (tcpHandlerGroup t)(concat key := h)\<rparr>"

text \<open>
  \<open>AddDefaultHandler\<close> assigns the package variable \<open>defaultHandler\<close>, whatever the
  engine: the new value of the variable.
\<close>

definition AddDefaultHandler :: "TcpHandler option \<Rightarrow> TCPIso8583Engine \<Rightarrow> TcpHandler option" where
  "AddDefaultHandler h t = h"

text \<open>
  Modelled from the spec: \<open>strutils.LeftPad\<close> of the library \<open>libpkg\<close>, which is not
  part of the sources. The specification has the length "rendered as a 4-digit,
  zero-left-padded decimal string": the pad character is repeated on the left up to the
  width.
\<close>

definition LeftPad :: "string \<Rightarrow> nat \<Rightarrow> char \<Rightarrow> string" where
  "LeftPad s w c = replicate (w - length s) c @ s"

text \<open>
  What one connection ends with: the bytes written to it, nothing written, or the process
  brought down by a panic in the connection's goroutine.
\<close>

datatype conn_result = Written string | NoResponse | Crashed panic

text \<open>The end of \<open>handler\<close> (lines 129 to 139): compose, frame and write.\<close>

definition respond :: "schema \<Rightarrow> elements \<Rightarrow> conn_result" where
  "respond isoConfig isoObj =
     (case ComposeMessage isoConfig isoObj of
        Err e \<Rightarrow> NoResponse
      | Panic p \<Rightarrow> Crashed p
      | Ok resp \<Rightarrow> Written (LeftPad (Itoa (length resp)) 4 (CHR ''0'') @ resp))"

text \<open>
  \<open>handler\<close>, for one connection. \<open>isoConfig\<close> is the package variable (\<open>None\<close> when
  nothing was loaded), \<open>defaultHandler\<close> the package variable of that name, and \<open>rd\<close> what
  \<open>tcp.BasicIOHandlerReader\<close> returned.
\<close>

definition handler ::
  "schema option \<Rightarrow> TcpHandler option \<Rightarrow> error + string \<Rightarrow> (string \<rightharpoonup> TcpHandler) \<Rightarrow> int list
     \<Rightarrow> conn_result" where
  "handler isoConfig defaultHandler rd handlerChain fieldNumber =
     (case rd of
        Inl err \<Rightarrow> NoResponse
      | Inr message \<Rightarrow>
          (case isoConfig of
             None \<Rightarrow> NoResponse
           | Some cfg \<Rightarrow>
               (case Parse cfg message [] of
                  (Err e, isoObj) \<Rightarrow> NoResponse
                | (Panic p, isoObj) \<Rightarrow> Crashed p
                | (Ok u, isoObj) \<Rightarrow>
                    (let fieldValues = map (GetField isoObj) fieldNumber
                     in case handlerChain (concat fieldValues) of
                          Some funct \<Rightarrow> respond cfg (funct isoObj)
                        | None \<Rightarrow>
                            (case defaultHandler of
                               Some d \<Rightarrow> respond cfg (d isoObj)
                             | None \<Rightarrow> NoResponse)))))"

section \<open>Field values that fit the schema\<close>

text \<open>A string of ASCII characters: every byte is one rune.\<close>

definition isASCII :: "string \<Rightarrow> bool" where
  "isASCII s = list_all (\<lambda>c. (of_char c :: nat) < 0x80) s"

text \<open>
  A value that fits its schema entry, so that composing neither pads nor cuts it and its
  length prefix has the digits the parser reads: a fixed field holds exactly \<open>MaxLen\<close>
  ASCII characters, an llvar value has at most 99 characters and an lllvar value at
  most 999 (\<open>MaxLen\<close> is not looked at for the variable fields, as in the code).
\<close>

definition fieldOK :: "FieldConfig \<Rightarrow> string \<Rightarrow> bool" where
  "fieldOK fieldConfig val =
     (if LenType fieldConfig = ''fixed'' then
        int (length val) = MaxLen fieldConfig \<and> MaxLen fieldConfig \<le> 1000000 \<and> isASCII val
      else if LenType fieldConfig = ''llvar'' then length val \<le> 99
      else LenType fieldConfig = ''lllvar'' \<and> length val \<le> 999)"

section \<open>Examples\<close>

definition fc :: "string \<Rightarrow> string \<Rightarrow> int \<Rightarrow> FieldConfig" where
  "fc ct lt n = \<lparr>ContentType = ct, Label = [], LenType = lt, MaxLen = n\<rparr>"

text \<open>The schema and the fields of the end-to-end example of the specification.\<close>

definition exampleConfig :: schema where
  "exampleConfig =
     [0 \<mapsto> fc ''n'' ''fixed'' 4, 1 \<mapsto> fc ''x'' ''fixed'' 16,
      2 \<mapsto> fc ''n'' ''llvar'' 19, 3 \<mapsto> fc ''n'' ''fixed'' 6]"

definition exampleFields :: elements where
  "exampleFields = [(0, ''0200''), (2, ''4111111111111111''), (3, ''000000'')]"

text \<open>
  The same schema with a bitmap field of 32 hexadecimal digits (primary and secondary
  bitmap), and a field above 64.
\<close>

definition wideConfig :: schema where
  "wideConfig =
     [0 \<mapsto> fc ''n'' ''fixed'' 4, 1 \<mapsto> fc ''x'' ''fixed'' 32,
      2 \<mapsto> fc ''n'' ''llvar'' 19, 3 \<mapsto> fc ''n'' ''fixed'' 6,
      70 \<mapsto> fc ''n'' ''fixed'' 3]"

definition wideMessage :: string where
  "wideMessage = ''020060000000000000000000000000000000164111111111111111000000''"

section \<open>Bits, bytes and hexadecimal digits\<close>

lemma bit_or_push_bit_1:
  "bit ((w :: byte) OR push_bit n 1) b \<longleftrightarrow> bit w b \<or> (b = n \<and> n < 8)"
  by (auto simp add: bit_simps)

lemma pos_and_push_bit_iff:
  "0 < (w :: byte) AND push_bit n 1 \<longleftrightarrow> bit w n"
  by (simp add: bit_iff_and_push_bit_not_eq_0 word_neq_0_conv)

lemma byte_bit_lt: "bit (w :: byte) b \<Longrightarrow> b < 8"
  by (auto dest: bit_imp_le_length)

lemma fifteen_mask: "(0x0f :: byte) = mask 4"
  by (simp add: mask_eq_exp_minus_1)

lemma nibbles_byte: "push_bit 4 (drop_bit 4 (v :: byte)) OR (v AND 0x0f) = v"
  unfolding fifteen_mask by (rule bit_eqI) (auto simp add: bit_simps)

lemma hi_nibble_lt: "unat (drop_bit 4 (v :: byte)) < 16"
proof -
  have "unat v < 256" using unsigned_less [of v, where ?'a = nat] by simp
  then show ?thesis by (simp add: unat_drop_bit_eq drop_bit_eq_div unat_div)
qed

lemma lo_nibble_lt: "unat ((v :: byte) AND 0x0f) < 16"
proof -
  have "unat (v AND 0x0f) \<le> unat (0x0f :: byte)"
    by (rule word_and_le1 [THEN word_le_nat_alt [THEN iffD1]])
  then show ?thesis by simp
qed

lemma upper_hextable: "map toUpperChar hextable = ''0123456789ABCDEF''"
  by code_simp

lemma upper_hex_digit: "n < 16 \<Longrightarrow> toUpperChar (hextable ! n) = ''0123456789ABCDEF'' ! n"
  using nth_map [of n hextable toUpperChar] by (simp add: upper_hextable) (simp add: hextable_def)

lemma upper_digits_hex: "\<forall>n \<in> set [0..<16]. isHexChar (''0123456789ABCDEF'' ! n)"
  by code_simp

lemma upper_digits_value:
  "\<forall>n \<in> set [0..<16]. fromHexChar (''0123456789ABCDEF'' ! n) = of_nat n"
  by code_simp

lemma hex_digit_roundtrip:
  assumes "n < 16"
  shows "isHexChar (toUpperChar (hextable ! n))"
    and "fromHexChar (toUpperChar (hextable ! n)) = of_nat n"
  using upper_digits_hex upper_digits_value assms by (simp_all add: upper_hex_digit)

text \<open>The upper-case hexadecimal text of a byte string decodes to the byte string.\<close>

lemma hex_roundtrip: "DecodeString (ToUpper (EncodeToString bs)) = Inr bs"
proof (induction bs)
  case Nil
  show ?case by (simp add: ToUpper_def)
next
  case (Cons v bs)
  have hi: "isHexChar (toUpperChar (hextable ! unat (drop_bit 4 v)))"
    "fromHexChar (toUpperChar (hextable ! unat (drop_bit 4 v))) = drop_bit 4 v"
    using hex_digit_roundtrip [OF hi_nibble_lt, of v] by simp_all
  have lo: "isHexChar (toUpperChar (hextable ! unat (v AND 0x0f)))"
    "fromHexChar (toUpperChar (hextable ! unat (v AND 0x0f))) = v AND 0x0f"
    using hex_digit_roundtrip [OF lo_nibble_lt, of v] by simp_all
  from Cons.IH have "DecodeString (map toUpperChar (EncodeToString bs)) = Inr bs"
    by (simp add: ToUpper_def)
  then show ?case
    using hi lo by (simp add: ToUpper_def nibbles_byte)
qed

lemma length_hex: "length (ToUpper (EncodeToString bs)) = 2 * length bs"
  by (induction bs) (simp_all add: ToUpper_def)

lemma DecodeString_length: "DecodeString s = Inr bs \<Longrightarrow> length s = 2 * length bs"
  by (induction s arbitrary: bs rule: DecodeString.induct) (auto split: if_splits sum.splits)

section \<open>The end-to-end example\<close>

text \<open>
  C2, as the code has it. With the schema of the example (field 0 fixed/4/n, field 1
  fixed/16, field 2 llvar/19/n, field 3 fixed/6/n), the fields 0 = 0200,
  2 = 4111111111111111 and 3 = 000000 compose to the MTI 0200, the 8-byte bitmap
  6000000000000000 (bits 2 and 3), the llvar prefix 16 (the account number has 16
  characters, not 17), the account number and 000000.
\<close>

theorem example_compose:
  "ComposeMessage exampleConfig exampleFields
     = Ok (''0200'' @ ''6000000000000000'' @ ''16'' @ ''4111111111111111'' @ ''000000'')
   \<and> composeBitmap exampleFields = Some [0x60, 0, 0, 0, 0, 0, 0, 0]"
  by code_simp

text \<open>C2, as stated, fails: the composed text does not carry the llvar prefix 17.\<close>

theorem example_compose_prefix_17_counterexample:
  "ComposeMessage exampleConfig exampleFields
     \<noteq> Ok (''0200'' @ ''6000000000000000'' @ ''17'' @ ''4111111111111111'' @ ''000000'')"
  by code_simp

text \<open>
  C1 at the fields of the example: the composed message has a bitmap of 8 bytes, and
  \<open>Parse\<close> of it does not return. It stores the fields 0 to 3 and then panics on the bit
  test of field 65, which reads \<open>bitmapBytes[8]\<close>. The round trip fails.
\<close>

theorem example_roundtrip_panics:
  "ComposeMessage exampleConfig exampleFields
     = Ok ''02006000000000000000164111111111111111000000''
   \<and> Parse exampleConfig ''02006000000000000000164111111111111111000000'' []
     = (Panic IndexOutOfRange,
        [(0, ''0200''), (1, ''6000000000000000''), (2, ''4111111111111111''), (3, ''000000'')])"
  by code_simp

section \<open>Padding of fixed fields\<close>

text \<open>
  C6 at a value with a character outside ASCII. The two bytes C3 A9 are one rune. With
  width 3 the value is shorter than the width in bytes, and \<open>padValue\<close> pads it by runes:
  the result has 4 bytes, not 3. Twice the rune is 4 bytes and 2 runes: \<open>padValue\<close>
  cuts it to 3 bytes, in the middle of the second rune.
\<close>

theorem padValue_non_ascii:
  "padValue [CHR 0xC3, CHR 0xA9] 3 ''ans'' = Some [CHR 0xC3, CHR 0xA9, CHR 0x20, CHR 0x20]
   \<and> padValue [CHR 0xC3, CHR 0xA9] 3 ''n'' = Some [CHR 0x30, CHR 0x30, CHR 0xC3, CHR 0xA9]
   \<and> padValue [CHR 0xC3, CHR 0xA9, CHR 0xC3, CHR 0xA9] 3 ''ans''
       = Some [CHR 0xC3, CHR 0xA9, CHR 0xC3]"
  by code_simp

section \<open>Slices and numbers\<close>

lemma slice_Some:
  "slice s lo hi = Some v \<longleftrightarrow>
     0 \<le> lo \<and> lo \<le> hi \<and> hi \<le> int (length s) \<and> v = take (nat (hi - lo)) (drop (nat lo) s)"
  by (auto simp add: slice_def)

lemma slice_length: "slice s lo hi = Some v \<Longrightarrow> int (length v) = hi - lo"
  by (auto simp add: slice_Some)




section \<open>The loop of Parse\<close>

lemma parseFields_done: "128 < i \<Longrightarrow> parseFields cfg msg bs i pos els = (Ok pos, els)"
  by (subst parseFields.simps) simp

lemma parseFields_panic:
  "i \<le> 128 \<Longrightarrow> bitTest bs i = None \<Longrightarrow>
   parseFields cfg msg bs i pos els = (Panic IndexOutOfRange, els)"
  by (subst parseFields.simps) simp

lemma parseFields_skip:
  "i \<le> 128 \<Longrightarrow> bitTest bs i = Some False \<Longrightarrow>
   parseFields cfg msg bs i pos els = parseFields cfg msg bs (i + 1) pos els"
  by (subst parseFields.simps) simp

lemma parseFields_field:
  "i \<le> 128 \<Longrightarrow> bitTest bs i = Some True \<Longrightarrow>
   parseFields cfg msg bs i pos els =
     (case parseField cfg msg i pos els of
        (Ok pos', els') \<Rightarrow> parseFields cfg msg bs (i + 1) pos' els'
      | (Err e, els') \<Rightarrow> (Err e, els')
      | (Panic p, els') \<Rightarrow> (Panic p, els'))"
  by (subst parseFields.simps) simp

lemma bitTest_None_iff:
  "1 \<le> i \<Longrightarrow> bitTest bs i = None \<longleftrightarrow> 8 * int (length bs) < i"
  by (auto simp add: bitTest_def)

lemma parseFields_short_bitmap:
  "length bs < 16 \<Longrightarrow> i \<le> 128 \<Longrightarrow> fst (parseFields cfg msg bs i pos els) \<noteq> Ok p"
proof (induction cfg msg bs i pos els rule: parseFields.induct)
  case (1 cfg msg bs i pos els)
  show ?case
  proof (cases "i = 128")
    case True
    with "1.prems" have "bitTest bs i = None" by (simp add: bitTest_def)
    then show ?thesis using "1.prems" by (simp add: parseFields_panic)
  next
    case False
    with "1.prems" have i: "i + 1 \<le> 128" by simp
    show ?thesis
    proof (cases "bitTest bs i")
      case None
      then show ?thesis using "1.prems" by (simp add: parseFields_panic)
    next
      case (Some b)
      show ?thesis
      proof (cases b)
        case False
        from "1.prems" Some False have "fst (parseFields cfg msg bs (i + 1) pos els) \<noteq> Ok p"
          by (intro "1.IH"(2) [of b] i) simp_all
        with Some "1.prems" False show ?thesis
          by (simp add: parseFields_skip)
      next
        case True
        obtain r els' where pf: "parseField cfg msg i pos els = (r, els')"
          by (cases "parseField cfg msg i pos els")
        show ?thesis
        proof (cases r)
          case (Ok pos')
          from "1.prems" Some True pf Ok
          have "fst (parseFields cfg msg bs (i + 1) pos' els') \<noteq> Ok p"
            by (intro "1.IH"(1) [of b r els' pos'] i) simp_all
          with pf Ok Some True "1.prems" show ?thesis
            by (simp add: parseFields_field)
        next
          case (Err e)
          with pf Some True "1.prems" show ?thesis by (simp add: parseFields_field)
        next
          case (Panic q)
          with pf Some True "1.prems" show ?thesis by (simp add: parseFields_field)
        qed
      qed
    qed
  qed
qed


text \<open>
  C3, as the code has it. \<open>Parse\<close> tests the bit of every field index from 2 to 128,
  whatever bit 1 is. When the decoded bitmap has \<open>n < 16\<close> bytes, the bit test of every
  field index above \<open>8 n\<close> reads past the end of the buffer; the test of field 65 does so
  exactly when \<open>n \<le> 8\<close>. So the loop never runs to its end: it returns an error or
  panics, and \<open>Parse\<close> does not return success.
\<close>

theorem short_bitmap_never_parses:
  assumes "length bitmapBytes < 16"
  shows "(\<forall>i. 1 \<le> i \<and> 8 * int (length bitmapBytes) < i \<longrightarrow> bitTest bitmapBytes i = None)
       \<and> (bitTest bitmapBytes 65 = None \<longleftrightarrow> length bitmapBytes \<le> 8)
       \<and> (\<forall>p. fst (parseFields isoConfig message bitmapBytes 2 pos els) \<noteq> Ok p)"
  using assms parseFields_short_bitmap [of bitmapBytes 2]
  by (auto simp add: bitTest_None_iff)

text \<open>The bitmap of the end-to-end example: 8 bytes, bit 1 clear.\<close>

theorem short_bitmap_never_parses_witness:
  "length [0x60, 0, 0, 0, 0, 0, 0, 0 :: byte] < 16
   \<and> bitTest [0x60, 0, 0, 0, 0, 0, 0, 0] 65 = None
   \<and> bitTest [0x60, 0, 0, 0, 0, 0, 0, 0] 64 = Some False
   \<and> fst (parseFields exampleConfig ''02006000000000000000164111111111111111000000''
            [0x60, 0, 0, 0, 0, 0, 0, 0] 2 20 []) \<noteq> Ok 44"
proof -
  have h: "length [0x60, 0, 0, 0, 0, 0, 0, 0 :: byte] < 16" by simp
  have "bitTest [0x60, 0, 0, 0, 0, 0, 0, 0] 64 = Some False" by code_simp
  then show ?thesis
    using h short_bitmap_never_parses [OF h, of exampleConfig
        "''02006000000000000000164111111111111111000000''" 20 "[]"]
    by simp
qed

text \<open>
  C3, as stated, fails for a buffer of 9 to 15 bytes: with 18 hexadecimal digits the buffer
  has 9 bytes, shorter than 16, yet the bit test of field 65 reads byte 8, in range; the
  first test out of range is that of field 73.
\<close>

theorem nine_byte_bitmap_counterexample:
  "DecodeString ''000000000000000000'' = Inr [0, 0, 0, 0, 0, 0, 0, 0, 0]
   \<and> length [0, 0, 0, 0, 0, 0, 0, 0, 0 :: byte] < 16
   \<and> bitTest [0, 0, 0, 0, 0, 0, 0, 0, 0] 65 = Some False
   \<and> bitTest [0, 0, 0, 0, 0, 0, 0, 0, 0] 73 = None"
  by code_simp

section \<open>Length prefixes that are not numbers\<close>




section \<open>The body and the loop of Parse, case by case\<close>

text \<open>What the body of the loop can return.\<close>

lemma parseVar_cases:
  "parseVar n message i pos els = (Panic SliceBoundsOutOfRange, els)
   \<or> (\<exists>pre v. slice message pos (pos + n) = Some pre
         \<and> slice message (pos + n) (pos + n + fst (Atoi pre)) = Some v
         \<and> parseVar n message i pos els = (Ok (pos + n + fst (Atoi pre)), AList.update i v els))"
  by (auto simp add: parseVar_def Let_def split: option.splits)

lemma parseField_cases:
  "(\<exists>e. parseField cfg message i pos els = (Err e, els))
   \<or> parseField cfg message i pos els = (Panic SliceBoundsOutOfRange, els)
   \<or> (\<exists>pos' v. parseField cfg message i pos els = (Ok pos', AList.update i v els))"
  using parseVar_cases [of 2 message i pos els] parseVar_cases [of 3 message i pos els]
  by (auto simp add: parseField_def split: option.splits)

lemma parseField_Ok:
  assumes "parseField cfg message i pos els = (Ok pos', els')"
  shows "\<exists>v. els' = AList.update i v els"
  using parseField_cases [of cfg message i pos els] assms by auto

lemma parseField_fail:
  assumes "parseField cfg message i pos els = (r, els')" and "\<forall>p. r \<noteq> Ok p"
  shows "els' = els"
  using parseField_cases [of cfg message i pos els] assms by auto

text \<open>Induction over the loop, with what it returns.\<close>

lemma parseFields_result_induct [consumes 0, case_names stop panic skip field fail]:
  assumes stop: "\<And>i pos els. 128 < i \<Longrightarrow> P i pos els (Ok pos, els)"
    and panic: "\<And>i pos els. i \<le> 128 \<Longrightarrow> bitTest bs i = None \<Longrightarrow>
                  P i pos els (Panic IndexOutOfRange, els)"
    and skip: "\<And>i pos els. i \<le> 128 \<Longrightarrow> bitTest bs i = Some False \<Longrightarrow>
                  P (i + 1) pos els (parseFields cfg msg bs (i + 1) pos els) \<Longrightarrow>
                  P i pos els (parseFields cfg msg bs (i + 1) pos els)"
    and field: "\<And>i pos els pos' els'. i \<le> 128 \<Longrightarrow> bitTest bs i = Some True \<Longrightarrow>
                  parseField cfg msg i pos els = (Ok pos', els') \<Longrightarrow>
                  P (i + 1) pos' els' (parseFields cfg msg bs (i + 1) pos' els') \<Longrightarrow>
                  P i pos els (parseFields cfg msg bs (i + 1) pos' els')"
    and fail: "\<And>i pos els r els'. i \<le> 128 \<Longrightarrow> bitTest bs i = Some True \<Longrightarrow>
                  parseField cfg msg i pos els = (r, els') \<Longrightarrow> \<forall>p. r \<noteq> Ok p \<Longrightarrow>
                  P i pos els (r, els')"
  shows "P i pos els (parseFields cfg msg bs i pos els)"
proof (induction "nat (129 - i)" arbitrary: i pos els)
  case 0
  then have "128 < i" by simp
  then show ?case using stop [of i pos els] by (simp add: parseFields_done)
next
  case (Suc n)
  then have le: "i \<le> 128" and n: "n = nat (129 - (i + 1))" by simp_all
  note IH = Suc.hyps(1) [OF n]
  show ?case
  proof (cases "bitTest bs i")
    case None
    with le show ?thesis using panic [of i pos els] by (simp add: parseFields_panic)
  next
    case (Some b)
    show ?thesis
    proof (cases b)
      case False
      with le Some show ?thesis
        using skip [of i pos els] IH [of pos els] by (simp add: parseFields_skip)
    next
      case True
      obtain r els' where pf: "parseField cfg msg i pos els = (r, els')"
        by (cases "parseField cfg msg i pos els")
      show ?thesis
      proof (cases "\<exists>p. r = Ok p")
        case True
        then obtain pos' where r: "r = Ok pos'" by blast
        with le Some \<open>b\<close> pf show ?thesis
          using field [of i pos els pos' els'] IH [of pos' els']
          by (simp add: parseFields_field)
      next
        case False
        then have nok: "\<forall>p. r \<noteq> Ok p" by blast
        from le Some \<open>b\<close> have "parseFields cfg msg bs i pos els = (r, els')"
          using pf nok by (cases r) (simp_all add: parseFields_field)
        with le Some \<open>b\<close> pf nok show ?thesis
          using fail [of i pos els r els'] by simp
      qed
    qed
  qed
qed

lemma presentFrom_skip:
  "bitTest bs i \<noteq> Some True \<Longrightarrow> presentFrom bs i k = presentFrom bs (i + 1) k"
  by (cases "k = i") (auto simp add: presentFrom_def)

lemma presentFrom_field:
  "i \<le> 128 \<Longrightarrow> bitTest bs i = Some True \<Longrightarrow>
   presentFrom bs i k = (k = i \<or> presentFrom bs (i + 1) k)"
  by (auto simp add: presentFrom_def)

lemma presentFrom_stop: "128 < i \<Longrightarrow> \<not> presentFrom bs i k"
  by (simp add: presentFrom_def)

lemma parseFields_frame:
  "\<forall>k. \<not> presentFrom bs i k \<longrightarrow>
     map_of (snd (parseFields cfg msg bs i pos els)) k = map_of els k"
proof (rule parseFields_result_induct [where cfg = cfg and msg = msg and bs = bs and
      P = "\<lambda>i pos els res. \<forall>k. \<not> presentFrom bs i k \<longrightarrow> map_of (snd res) k = map_of els k"])
  fix i pos els pos' els'
  assume le: "i \<le> 128" and bit: "bitTest bs i = Some True"
    and pf: "parseField cfg msg i pos els = (Ok pos', els')"
    and IH: "\<forall>k. \<not> presentFrom bs (i + 1) k \<longrightarrow>
               map_of (snd (parseFields cfg msg bs (i + 1) pos' els')) k = map_of els' k"
  from parseField_Ok [OF pf] obtain v where "els' = AList.update i v els" ..
  then have "\<And>k. k \<noteq> i \<Longrightarrow> map_of els' k = map_of els k" by (simp add: update_conv')
  with IH show "\<forall>k. \<not> presentFrom bs i k \<longrightarrow>
               map_of (snd (parseFields cfg msg bs (i + 1) pos' els')) k = map_of els k"
    by (simp add: presentFrom_field [OF le bit])
next
  fix i pos els r els'
  assume "parseField cfg msg i pos els = (r, els')" and "\<forall>p. r \<noteq> Ok p"
  then have "els' = els" by (rule parseField_fail)
  then show "\<forall>k. \<not> presentFrom bs i k \<longrightarrow> map_of (snd (r, els')) k = map_of els k" by simp
qed (simp_all add: presentFrom_skip)

lemma parseFields_dom:
  "(\<exists>p. fst (parseFields cfg msg bs i pos els) = Ok p) \<longrightarrow>
     dom (map_of (snd (parseFields cfg msg bs i pos els)))
       = dom (map_of els) \<union> {k. presentFrom bs i k}"
proof (rule parseFields_result_induct [where cfg = cfg and msg = msg and bs = bs and
      P = "\<lambda>i pos els res. (\<exists>p. fst res = Ok p) \<longrightarrow>
              dom (map_of (snd res)) = dom (map_of els) \<union> {k. presentFrom bs i k}"])
  fix i pos els pos' els'
  assume le: "i \<le> 128" and bit: "bitTest bs i = Some True"
    and pf: "parseField cfg msg i pos els = (Ok pos', els')"
    and IH: "(\<exists>p. fst (parseFields cfg msg bs (i + 1) pos' els') = Ok p) \<longrightarrow>
               dom (map_of (snd (parseFields cfg msg bs (i + 1) pos' els')))
                 = dom (map_of els') \<union> {k. presentFrom bs (i + 1) k}"
  from parseField_Ok [OF pf] obtain v where "els' = AList.update i v els" ..
  then have "dom (map_of els') = insert i (dom (map_of els))" by (simp add: update_conv')
  with IH show "(\<exists>p. fst (parseFields cfg msg bs (i + 1) pos' els') = Ok p) \<longrightarrow>
               dom (map_of (snd (parseFields cfg msg bs (i + 1) pos' els')))
                 = dom (map_of els) \<union> {k. presentFrom bs i k}"
    by (auto simp add: presentFrom_field [OF le bit])
qed (simp_all add: presentFrom_skip presentFrom_stop)

section \<open>Parse of a truncated message\<close>

lemma slice_take_keep:
  "slice s lo hi = Some v \<Longrightarrow> hi \<le> int k \<Longrightarrow> slice (take k s) lo hi = Some v"
  by (auto simp add: slice_Some drop_take min_def)

lemma slice_take_cut: "int k < hi \<Longrightarrow> slice (take k s) lo hi = None"
  by (auto simp add: slice_def)

lemma parseVar_take:
  assumes "parseVar n full i pos els = (Ok pos', els')" and "0 \<le> n"
  shows "parseVar n (take k full) i pos els =
           (if pos' \<le> int k then (Ok pos', els') else (Panic SliceBoundsOutOfRange, els))"
proof -
  from parseVar_cases [of n full i pos els] assms(1)
  obtain pre v where pre: "slice full pos (pos + n) = Some pre"
    and v: "slice full (pos + n) (pos + n + fst (Atoi pre)) = Some v"
    and res: "pos' = pos + n + fst (Atoi pre)" "els' = AList.update i v els"
    by auto
  from v have len: "0 \<le> fst (Atoi pre)" by (simp add: slice_Some)
  show ?thesis
  proof (cases "pos' \<le> int k")
    case True
    with res len have "pos + n \<le> int k" by simp
    from slice_take_keep [OF pre this] slice_take_keep [OF v] True res
    show ?thesis by (simp add: parseVar_def)
  next
    case False
    show ?thesis
    proof (cases "pos + n \<le> int k")
      case True
      from False res have "int k < pos + n + fst (Atoi pre)" by simp
      from slice_take_keep [OF pre True] slice_take_cut [OF this] False
      show ?thesis by (simp add: parseVar_def)
    next
      case nk: False
      then have "int k < pos + n" by simp
      from slice_take_cut [OF this] False show ?thesis by (simp add: parseVar_def)
    qed
  qed
qed

lemma parseField_take:
  assumes "parseField cfg full i pos els = (Ok pos', els')"
  shows "parseField cfg (take k full) i pos els =
           (if pos' \<le> int k then (Ok pos', els') else (Panic SliceBoundsOutOfRange, els))"
proof -
  from assms obtain fieldConfig where c: "cfg i = Some fieldConfig"
    by (auto simp add: parseField_def split: option.splits)
  show ?thesis
  proof (cases "LenType fieldConfig = ''fixed''")
    case True
    with assms c obtain v where v: "slice full pos (pos + MaxLen fieldConfig) = Some v"
      and res: "pos' = pos + MaxLen fieldConfig" "els' = AList.update i v els"
      by (auto simp add: parseField_def split: option.splits)
    show ?thesis
    proof (cases "pos' \<le> int k")
      case le: True
      with res have "pos + MaxLen fieldConfig \<le> int k" by simp
      from slice_take_keep [OF v this] c True res le show ?thesis
        by (simp add: parseField_def)
    next
      case False
      with res have "int k < pos + MaxLen fieldConfig" by simp
      from slice_take_cut [OF this] c True False show ?thesis
        by (simp add: parseField_def)
    qed
  next
    case nf: False
    show ?thesis
    proof (cases "LenType fieldConfig = ''llvar''")
      case True
      with assms c nf have "parseVar 2 full i pos els = (Ok pos', els')"
        by (simp add: parseField_def)
      from parseVar_take [OF this] c nf True show ?thesis by (simp add: parseField_def)
    next
      case nl: False
      with assms c nf have l3: "LenType fieldConfig = ''lllvar''"
        by (auto simp add: parseField_def split: if_splits)
      with assms c nf nl have "parseVar 3 full i pos els = (Ok pos', els')"
        by (simp add: parseField_def)
      from parseVar_take [OF this] c nf nl l3 show ?thesis by (simp add: parseField_def)
    qed
  qed
qed

lemma parseFields_take:
  "\<forall>n els1. parseFields cfg full bs i pos els = (Ok n, els1) \<longrightarrow> pos \<le> int k \<longrightarrow> int k < n \<longrightarrow>
     fst (parseFields cfg (take k full) bs i pos els) = Panic SliceBoundsOutOfRange"
proof (rule parseFields_result_induct [where cfg = cfg and msg = full and bs = bs and
      P = "\<lambda>i pos els res. \<forall>n els1. res = (Ok n, els1) \<longrightarrow> pos \<le> int k \<longrightarrow> int k < n \<longrightarrow>
             fst (parseFields cfg (take k full) bs i pos els) = Panic SliceBoundsOutOfRange"])
  fix i pos els
  assume "i \<le> 128" and "bitTest bs i = Some False"
    and "\<forall>n els1. parseFields cfg full bs (i + 1) pos els = (Ok n, els1) \<longrightarrow> pos \<le> int k \<longrightarrow>
           int k < n \<longrightarrow>
           fst (parseFields cfg (take k full) bs (i + 1) pos els) = Panic SliceBoundsOutOfRange"
  then show "\<forall>n els1. parseFields cfg full bs (i + 1) pos els = (Ok n, els1) \<longrightarrow> pos \<le> int k \<longrightarrow>
           int k < n \<longrightarrow>
           fst (parseFields cfg (take k full) bs i pos els) = Panic SliceBoundsOutOfRange"
    by (simp add: parseFields_skip)
next
  fix i pos els pos' els'
  assume le: "i \<le> 128" and bit: "bitTest bs i = Some True"
    and pf: "parseField cfg full i pos els = (Ok pos', els')"
    and IH: "\<forall>n els1. parseFields cfg full bs (i + 1) pos' els' = (Ok n, els1) \<longrightarrow>
           pos' \<le> int k \<longrightarrow> int k < n \<longrightarrow>
           fst (parseFields cfg (take k full) bs (i + 1) pos' els') = Panic SliceBoundsOutOfRange"
  show "\<forall>n els1. parseFields cfg full bs (i + 1) pos' els' = (Ok n, els1) \<longrightarrow> pos \<le> int k \<longrightarrow>
           int k < n \<longrightarrow>
           fst (parseFields cfg (take k full) bs i pos els) = Panic SliceBoundsOutOfRange"
  proof (cases "pos' \<le> int k")
    case True
    with parseField_take [OF pf, of k] le bit IH show ?thesis
      by (simp add: parseFields_field)
  next
    case False
    with parseField_take [OF pf, of k] le bit show ?thesis
      by (simp add: parseFields_field)
  qed
qed auto

lemma Parse_pos_Ok:
  assumes "Parse_pos cfg msg els = (Ok n, els')"
  obtains m b mti hex bs where "cfg 0 = Some m" and "slice msg 0 (MaxLen m) = Some mti"
    and "cfg 1 = Some b" and "slice msg (MaxLen m) (MaxLen m + MaxLen b) = Some hex"
    and "DecodeString hex = Inr bs"
    and "parseFields cfg msg bs 2 (MaxLen m + MaxLen b)
           (AList.update 1 hex (AList.update 0 mti els)) = (Ok n, els')"
  using assms by (auto simp add: Parse_pos_def Let_def split: option.splits sum.splits)

lemma Parse_Ok: "Parse cfg msg els = (Ok u, els') \<Longrightarrow> \<exists>n. Parse_pos cfg msg els = (Ok n, els')"
  by (auto simp add: Parse_def split: prod.splits result.splits)

lemma Parse_of_Parse_pos:
  "Parse_pos cfg msg els = (Panic p, els') \<Longrightarrow> Parse cfg msg els = (Panic p, els')"
  by (simp add: Parse_def)

section \<open>Parse on a map that is not empty\<close>

text \<open>The body of the loop on another map: the same outcome, the same value stored.\<close>

lemma parseField_other_map:
  "parseField cfg msg i pos els0 =
     (case parseField cfg msg i pos els of
        (Ok p, e) \<Rightarrow> (Ok p, AList.update i (GetField e i) els0)
      | (Err x, e) \<Rightarrow> (Err x, els0)
      | (Panic x, e) \<Rightarrow> (Panic x, els0))"
  by (simp add: parseField_def parseVar_def Let_def GetField_def update_conv'
      split: option.splits)

lemma parseFields_other_map:
  "map_of els = m ++ map_of els0 \<Longrightarrow>
   fst (parseFields cfg msg bs i pos els) = fst (parseFields cfg msg bs i pos els0)
   \<and> map_of (snd (parseFields cfg msg bs i pos els))
       = m ++ map_of (snd (parseFields cfg msg bs i pos els0))"
proof (induction "nat (129 - i)" arbitrary: i pos els els0)
  case 0
  then have "128 < i" by simp
  with 0 show ?case by (simp add: parseFields_done)
next
  case (Suc n)
  then have le: "i \<le> 128" and n: "n = nat (129 - (i + 1))" by simp_all
  note IH = Suc.hyps(1) [OF n]
  show ?case
  proof (cases "bitTest bs i")
    case None
    with le Suc.prems show ?thesis by (simp add: parseFields_panic)
  next
    case (Some b)
    show ?thesis
    proof (cases b)
      case False
      with le Some IH [OF Suc.prems, of pos] show ?thesis by (simp add: parseFields_skip)
    next
      case True
      obtain r e where pf: "parseField cfg msg i pos els = (r, e)"
        by (cases "parseField cfg msg i pos els")
      show ?thesis
      proof (cases r)
        case (Ok p)
        from parseField_Ok [OF pf [unfolded Ok]] obtain v where e: "e = AList.update i v els" ..
        then have g: "GetField e i = v" by (simp add: GetField_def update_conv')
        from pf Ok g have pf0: "parseField cfg msg i pos els0 = (Ok p, AList.update i v els0)"
          by (simp add: parseField_other_map [of cfg msg i pos els0 els])
        from Suc.prems have "map_of (AList.update i v els) = m ++ map_of (AList.update i v els0)"
          by (simp add: update_conv')
        from IH [OF this, of p] le Some True pf Ok e pf0 show ?thesis
          by (simp add: parseFields_field)
      next
        case (Err x)
        with pf have "e = els" by (intro parseField_fail [OF pf]) simp
        moreover from pf Err have "parseField cfg msg i pos els0 = (Err x, els0)"
          by (simp add: parseField_other_map [of cfg msg i pos els0 els])
        ultimately show ?thesis using le Some True pf Err Suc.prems
          by (simp add: parseFields_field)
      next
        case (Panic x)
        with pf have "e = els" by (intro parseField_fail [OF pf]) simp
        moreover from pf Panic have "parseField cfg msg i pos els0 = (Panic x, els0)"
          by (simp add: parseField_other_map [of cfg msg i pos els0 els])
        ultimately show ?thesis using le Some True pf Panic Suc.prems
          by (simp add: parseFields_field)
      qed
    qed
  qed
qed

lemma Parse_pos_fresh:
  "fst (Parse_pos cfg msg els) = fst (Parse_pos cfg msg [])
   \<and> map_of (snd (Parse_pos cfg msg els)) = map_of els ++ map_of (snd (Parse_pos cfg msg []))"
proof (cases "cfg 0")
  case None
  then show ?thesis by (simp add: Parse_pos_def)
next
  case m: (Some m)
  show ?thesis
  proof (cases "slice msg 0 (MaxLen m)")
    case None
    with m show ?thesis by (simp add: Parse_pos_def)
  next
    case mti: (Some mti)
    have upd0: "map_of (AList.update 0 mti els) = map_of els ++ map_of (AList.update 0 mti [])"
      by (rule ext) (simp add: update_conv' map_add_def)
    show ?thesis
    proof (cases "cfg 1")
      case None
      with m mti upd0 show ?thesis by (simp add: Parse_pos_def)
    next
      case b: (Some b)
      show ?thesis
      proof (cases "slice msg (MaxLen m) (MaxLen m + MaxLen b)")
        case None
        with m mti b upd0 show ?thesis by (simp add: Parse_pos_def)
      next
        case hex: (Some hex)
        have upd: "map_of (AList.update 1 hex (AList.update 0 mti els))
               = map_of els ++ map_of (AList.update 1 hex (AList.update 0 mti []))"
          by (rule ext) (simp add: update_conv' map_add_def)
        show ?thesis
        proof (cases "DecodeString hex")
          case (Inl e)
          with m mti b hex upd show ?thesis by (simp add: Parse_pos_def)
        next
          case (Inr bs)
          from parseFields_other_map [OF upd, of cfg msg bs 2 "MaxLen m + MaxLen b"]
            m mti b hex Inr
          show ?thesis by (simp add: Parse_pos_def)
        qed
      qed
    qed
  qed
qed

lemma Parse_fresh:
  "fst (Parse cfg msg els) = fst (Parse cfg msg [])
   \<and> map_of (snd (Parse cfg msg els)) = map_of els ++ map_of (snd (Parse cfg msg []))"
proof -
  have "fst (Parse cfg msg e) = (case fst (Parse_pos cfg msg e) of Ok p \<Rightarrow> Ok ()
          | Err x \<Rightarrow> Err x | Panic x \<Rightarrow> Panic x)"
    and "snd (Parse cfg msg e) = snd (Parse_pos cfg msg e)" for e
    by (simp_all add: Parse_def split: prod.splits result.splits)
  with Parse_pos_fresh [of cfg msg els] show ?thesis by simp
qed

section \<open>What a successful Parse leaves in the map\<close>

text \<open>
  C8, as the code has it. \<open>Parse\<close> writes into the map it is given and never clears it.
  After a successful \<open>Parse\<close> field 0 is the MTI and field 1 is the bitmap text, both as
  they stand in the message; the keys of the map are the keys it had before together with
  0, 1 and the fields that the bitmap indicates present; every entry under another key is
  what it was before. The map is the prior map overridden by what \<open>Parse\<close> of the same
  message leaves in an empty map, which succeeds too and holds the MTI, the bitmap text
  and the present fields and nothing else. So the map holds exactly these keys precisely
  when every prior key is 0, 1 or a present field.
\<close>

theorem parse_keeps_other_fields:
  assumes "Parse isoConfig message els = (Ok (), els')"
  shows "\<exists>mtiConfig bitmapConfig bitmapBytes.
           isoConfig 0 = Some mtiConfig \<and> isoConfig 1 = Some bitmapConfig
         \<and> map_of els' 0 = Some (take (nat (MaxLen mtiConfig)) message)
         \<and> map_of els' 1 = Some (take (nat (MaxLen bitmapConfig))
                                    (drop (nat (MaxLen mtiConfig)) message))
         \<and> DecodeString (GetField els' 1) = Inr bitmapBytes
         \<and> dom (map_of els') = dom (map_of els) \<union> {0, 1} \<union> {k. presentFrom bitmapBytes 2 k}
         \<and> (\<forall>k. k \<noteq> 0 \<and> k \<noteq> 1 \<and> \<not> presentFrom bitmapBytes 2 k \<longrightarrow>
                map_of els' k = map_of els k)
         \<and> (dom (map_of els') = {0, 1} \<union> {k. presentFrom bitmapBytes 2 k}
              \<longleftrightarrow> dom (map_of els) \<subseteq> {0, 1} \<union> {k. presentFrom bitmapBytes 2 k})
         \<and> fst (Parse isoConfig message []) = Ok ()
         \<and> dom (map_of (snd (Parse isoConfig message [])))
              = {0, 1} \<union> {k. presentFrom bitmapBytes 2 k}
         \<and> map_of els' = map_of els ++ map_of (snd (Parse isoConfig message []))"
proof -
  from Parse_Ok [OF assms] obtain n where "Parse_pos isoConfig message els = (Ok n, els')" ..
  then obtain m b mti hex bs where m: "isoConfig 0 = Some m"
    and mti: "slice message 0 (MaxLen m) = Some mti"
    and b: "isoConfig 1 = Some b"
    and bh: "slice message (MaxLen m) (MaxLen m + MaxLen b) = Some hex"
    and hex: "DecodeString hex = Inr bs"
    and pf: "parseFields isoConfig message bs 2 (MaxLen m + MaxLen b)
           (AList.update 1 hex (AList.update 0 mti els)) = (Ok n, els')"
    by (rule Parse_pos_Ok)
  let ?P = "{k. presentFrom bs 2 k}"
  let ?els2 = "AList.update 1 hex (AList.update 0 mti els)"
  have np: "\<not> presentFrom bs 2 0" "\<not> presentFrom bs 2 1" by (simp_all add: presentFrom_def)
  from parseFields_frame [of bs 2 isoConfig message "MaxLen m + MaxLen b" ?els2] pf
  have frame: "\<And>k. \<not> presentFrom bs 2 k \<Longrightarrow> map_of els' k = map_of ?els2 k" by simp
  from parseFields_dom [of isoConfig message bs 2 "MaxLen m + MaxLen b" ?els2] pf
  have "dom (map_of els') = dom (map_of ?els2) \<union> ?P" by simp
  then have d: "dom (map_of els') = dom (map_of els) \<union> {0, 1} \<union> ?P"
    by (auto simp add: update_conv')
  from frame [OF np(1)] mti have f0: "map_of els' 0 = Some (take (nat (MaxLen m)) message)"
    by (simp add: update_conv' slice_Some)
  from bh have hex_eq: "hex = take (nat (MaxLen b)) (drop (nat (MaxLen m)) message)"
    by (simp add: slice_Some)
  from frame [OF np(2)] have f1: "map_of els' 1 = Some hex"
    by (simp add: update_conv')
  then have g1: "GetField els' 1 = hex" by (simp add: GetField_def)
  from frame have other: "\<forall>k. k \<noteq> 0 \<and> k \<noteq> 1 \<and> \<not> presentFrom bs 2 k \<longrightarrow>
      map_of els' k = map_of els k"
    by (simp add: update_conv')
  from d have exact: "dom (map_of els') = {0, 1} \<union> ?P \<longleftrightarrow> dom (map_of els) \<subseteq> {0, 1} \<union> ?P"
    by blast
  from Parse_fresh [of isoConfig message els] assms
  have fresh: "fst (Parse isoConfig message []) = Ok ()"
    and add: "map_of els' = map_of els ++ map_of (snd (Parse isoConfig message []))"
    by simp_all
  from fresh have P0: "Parse isoConfig message [] = (Ok (), snd (Parse isoConfig message []))"
    by (cases "Parse isoConfig message []") simp
  from Parse_Ok [OF P0] obtain n0
    where "Parse_pos isoConfig message [] = (Ok n0, snd (Parse isoConfig message []))" ..
  with m mti b bh hex
  have pf0: "parseFields isoConfig message bs 2 (MaxLen m + MaxLen b)
           (AList.update 1 hex (AList.update 0 mti [])) = (Ok n0, snd (Parse isoConfig message []))"
    by (simp add: Parse_pos_def)
  from parseFields_dom [of isoConfig message bs 2 "MaxLen m + MaxLen b"
      "AList.update 1 hex (AList.update 0 mti [])"] pf0
  have d0: "dom (map_of (snd (Parse isoConfig message []))) = {0, 1} \<union> ?P"
    by auto
  from m b f0 f1 g1 hex hex_eq d other exact fresh d0 add show ?thesis
    by (intro exI [of _ m] exI [of _ b] exI [of _ bs]) simp
qed

text \<open>
  A parse on an object that holds the fields 5 and 2, of a message with field 2 and
  without field 5; and the same parse on an empty object.
\<close>

theorem parse_keeps_other_fields_witness:
  "Parse wideConfig wideMessage [(5, ''old''), (2, ''older'')]
     = (Ok (), [(5, ''old''), (2, ''4111111111111111''), (0, ''0200''),
                (1, ''60000000000000000000000000000000''), (3, ''000000'')])
   \<and> dom (map_of [(5, ''old''), (2, ''4111111111111111''), (0, ''0200''),
                (1, ''60000000000000000000000000000000''), (3, ''000000'')])
       = dom (map_of [(5 :: int, ''old''), (2, ''older'')]) \<union> {0, 1}
         \<union> {k. presentFrom [0x60, 0, 0, 0, 0, 0, 0, 0, 0, 0, 0, 0, 0, 0, 0, 0] 2 k}
   \<and> Parse wideConfig wideMessage []
     = (Ok (), [(0, ''0200''), (1, ''60000000000000000000000000000000''),
                (2, ''4111111111111111''), (3, ''000000'')])"
proof -
  let ?X = "[(5, ''old''), (2, ''4111111111111111''), (0, ''0200''),
                (1, ''60000000000000000000000000000000''), (3, ''000000'')]"
  have h: "Parse wideConfig wideMessage [(5, ''old''), (2, ''older'')] = (Ok (), ?X)"
    by code_simp
  have f: "Parse wideConfig wideMessage []
     = (Ok (), [(0, ''0200''), (1, ''60000000000000000000000000000000''),
                (2, ''4111111111111111''), (3, ''000000'')])"
    by code_simp
  have d: "DecodeString (GetField ?X 1)
             = Inr [0x60, 0, 0, 0, 0, 0, 0, 0, 0, 0, 0, 0, 0, 0, 0, 0]"
    by code_simp
  from parse_keeps_other_fields [OF h] obtain bitmapBytes
    where "DecodeString (GetField ?X 1) = Inr bitmapBytes"
      and "dom (map_of ?X) = dom (map_of [(5 :: int, ''old''), (2, ''older'')]) \<union> {0, 1}
             \<union> {k. presentFrom bitmapBytes 2 k}"
    by blast
  with d h f show ?thesis by simp
qed

text \<open>
  C8, as stated, fails: field 5, set before the parse, survives a successful parse of a
  message whose bitmap has bit 5 clear.
\<close>

theorem parse_keeps_prior_field_counterexample:
  "Parse wideConfig wideMessage [(5, ''old'')]
     = (Ok (), [(5, ''old''), (0, ''0200''), (1, ''60000000000000000000000000000000''),
                (2, ''4111111111111111''), (3, ''000000'')])
   \<and> DecodeString ''60000000000000000000000000000000''
       = Inr [0x60, 0, 0, 0, 0, 0, 0, 0, 0, 0, 0, 0, 0, 0, 0, 0]
   \<and> bitTest [0x60, 0, 0, 0, 0, 0, 0, 0, 0, 0, 0, 0, 0, 0, 0, 0] 5 = Some False"
  by code_simp

section \<open>Input that is too short\<close>

text \<open>A slice of the first \<open>k\<close> characters of a string.\<close>

lemma slice_take:
  "slice (take k s) lo hi = (if hi \<le> int k then slice s lo hi else None)"
  by (auto simp add: slice_def drop_take min_def)

lemma parseVar_take_fail:
  assumes "parseVar n full i pos els = (r, els')" and "\<forall>p. r \<noteq> Ok p"
  shows "parseVar n (take k full) i pos els = (r, els')"
proof -
  from parseVar_cases [of n full i pos els] assms
  have res: "r = Panic SliceBoundsOutOfRange" "els' = els" by auto
  from assms res have "slice full pos (pos + n) = None
      \<or> (\<exists>pre. slice full pos (pos + n) = Some pre
            \<and> slice full (pos + n) (pos + n + fst (Atoi pre)) = None)"
    by (simp add: parseVar_def Let_def split: option.splits)
  then show ?thesis unfolding res
    by (auto simp add: parseVar_def Let_def slice_take split: option.splits)
qed

lemma parseField_take_fail:
  assumes "parseField cfg full i pos els = (r, els')" and "\<forall>p. r \<noteq> Ok p"
  shows "parseField cfg (take k full) i pos els = (r, els')"
proof (cases "cfg i")
  case None
  with assms show ?thesis by (simp add: parseField_def)
next
  case (Some fieldConfig)
  show ?thesis
  proof (cases "LenType fieldConfig = ''fixed''")
    case True
    with assms Some show ?thesis
      by (auto simp add: parseField_def slice_take split: option.splits)
  next
    case nf: False
    show ?thesis
    proof (cases "LenType fieldConfig = ''llvar''")
      case True
      with assms Some nf parseVar_take_fail [of 2 full i pos els r els' k] show ?thesis
        by (simp add: parseField_def)
    next
      case nl: False
      show ?thesis
      proof (cases "LenType fieldConfig = ''lllvar''")
        case True
        with assms Some nf nl parseVar_take_fail [of 3 full i pos els r els' k] show ?thesis
          by (simp add: parseField_def)
      next
        case False
        with assms Some nf nl show ?thesis by (simp add: parseField_def)
      qed
    qed
  qed
qed

lemma parseField_mono:
  assumes "parseField cfg msg i pos els = (Ok pos', els')"
  shows "pos \<le> pos'"
proof -
  from assms obtain fieldConfig where c: "cfg i = Some fieldConfig"
    by (auto simp add: parseField_def split: option.splits)
  have var: "pos \<le> pos'" if "parseVar n msg i pos els = (Ok pos', els')" and "0 \<le> n" for n
  proof -
    from parseVar_cases [of n msg i pos els] that(1)
    obtain pre where "slice msg pos (pos + n) = Some pre"
      and "slice msg (pos + n) (pos + n + fst (Atoi pre)) \<noteq> None"
      and "pos' = pos + n + fst (Atoi pre)"
      by auto
    then show ?thesis using that(2) by (auto simp add: slice_Some)
  qed
  show ?thesis
  proof (cases "LenType fieldConfig = ''fixed''")
    case True
    with assms c show ?thesis
      by (auto simp add: parseField_def slice_Some split: option.splits)
  next
    case False
    with assms c var [of 2] var [of 3] show ?thesis
      by (auto simp add: parseField_def split: if_splits)
  qed
qed

lemma loopReads_done: "128 < i \<Longrightarrow> loopReads cfg msg bs i pos = []"
  by (subst loopReads.simps) simp

lemma loopReads_panic: "i \<le> 128 \<Longrightarrow> bitTest bs i = None \<Longrightarrow> loopReads cfg msg bs i pos = []"
  by (subst loopReads.simps) simp

lemma loopReads_skip:
  "i \<le> 128 \<Longrightarrow> bitTest bs i = Some False \<Longrightarrow>
   loopReads cfg msg bs i pos = loopReads cfg msg bs (i + 1) pos"
  by (subst loopReads.simps) simp

lemma loopReads_field:
  assumes "i \<le> 128" and "bitTest bs i = Some True"
    and "parseField cfg msg i pos els = (Ok pos', AList.update i v els)"
  shows "loopReads cfg msg bs i pos = (i, pos', v) # loopReads cfg msg bs (i + 1) pos'"
proof -
  from assms(3) have "parseField cfg msg i pos [] = (Ok pos', AList.update i v [])"
    by (simp add: parseField_other_map [of cfg msg i pos "[]" els] GetField_def update_conv')
  with assms(1,2) show ?thesis
    by (subst loopReads.simps) (simp add: GetField_def)
qed

lemma loopReads_fail:
  assumes "i \<le> 128" and "bitTest bs i = Some True"
    and "parseField cfg msg i pos els = (r, els')" and "\<forall>p. r \<noteq> Ok p"
  shows "loopReads cfg msg bs i pos = []"
proof -
  from assms(3,4) have "parseField cfg msg i pos [] = (r, [])"
    by (cases r) (simp_all add: parseField_other_map [of cfg msg i pos "[]" els])
  with assms(1,2,4) show ?thesis
    by (subst loopReads.simps) (cases r, simp_all)
qed

text \<open>Induction over the loop of \<open>Parse\<close>, with what it returns and what it reads.\<close>

lemma parse_loop_induct:
  assumes stop: "\<And>i pos els. 128 < i \<Longrightarrow> P i pos els (Ok pos, els) []"
    and panic: "\<And>i pos els. i \<le> 128 \<Longrightarrow> bitTest bs i = None \<Longrightarrow>
                  P i pos els (Panic IndexOutOfRange, els) []"
    and skip: "\<And>i pos els. i \<le> 128 \<Longrightarrow> bitTest bs i = Some False \<Longrightarrow>
                  P (i + 1) pos els (parseFields cfg msg bs (i + 1) pos els)
                    (loopReads cfg msg bs (i + 1) pos) \<Longrightarrow>
                  P i pos els (parseFields cfg msg bs (i + 1) pos els)
                    (loopReads cfg msg bs (i + 1) pos)"
    and field: "\<And>i pos els pos' v. i \<le> 128 \<Longrightarrow> bitTest bs i = Some True \<Longrightarrow>
                  parseField cfg msg i pos els = (Ok pos', AList.update i v els) \<Longrightarrow>
                  pos \<le> pos' \<Longrightarrow>
                  P (i + 1) pos' (AList.update i v els)
                    (parseFields cfg msg bs (i + 1) pos' (AList.update i v els))
                    (loopReads cfg msg bs (i + 1) pos') \<Longrightarrow>
                  P i pos els (parseFields cfg msg bs (i + 1) pos' (AList.update i v els))
                    ((i, pos', v) # loopReads cfg msg bs (i + 1) pos')"
    and fail: "\<And>i pos els r. i \<le> 128 \<Longrightarrow> bitTest bs i = Some True \<Longrightarrow>
                  parseField cfg msg i pos els = (r, els) \<Longrightarrow> \<forall>p. r \<noteq> Ok p \<Longrightarrow>
                  P i pos els (r, els) []"
  shows "P i pos els (parseFields cfg msg bs i pos els) (loopReads cfg msg bs i pos)"
proof (rule parseFields_result_induct [where cfg = cfg and msg = msg and bs = bs and
      P = "\<lambda>i pos els res. P i pos els res (loopReads cfg msg bs i pos)"])
  fix i :: int and pos :: int and els :: elements
  assume "128 < i"
  then show "P i pos els (Ok pos, els) (loopReads cfg msg bs i pos)"
    using stop [of i pos els] by (simp add: loopReads_done)
next
  fix i :: int and pos :: int and els :: elements
  assume "i \<le> 128" and "bitTest bs i = None"
  then show "P i pos els (Panic IndexOutOfRange, els) (loopReads cfg msg bs i pos)"
    using panic [of i pos els] by (simp add: loopReads_panic)
next
  fix i :: int and pos :: int and els :: elements
  assume "i \<le> 128" and "bitTest bs i = Some False"
    and "P (i + 1) pos els (parseFields cfg msg bs (i + 1) pos els)
           (loopReads cfg msg bs (i + 1) pos)"
  then show "P i pos els (parseFields cfg msg bs (i + 1) pos els) (loopReads cfg msg bs i pos)"
    using skip [of i pos els] by (simp add: loopReads_skip)
next
  fix i :: int and pos :: int and els :: elements and pos' :: int and els' :: elements
  assume le: "i \<le> 128" and bit: "bitTest bs i = Some True"
    and pf: "parseField cfg msg i pos els = (Ok pos', els')"
    and IH: "P (i + 1) pos' els' (parseFields cfg msg bs (i + 1) pos' els')
               (loopReads cfg msg bs (i + 1) pos')"
  from parseField_Ok [OF pf] obtain v where els': "els' = AList.update i v els" ..
  from pf els' have pf': "parseField cfg msg i pos els = (Ok pos', AList.update i v els)"
    by simp
  from field [OF le bit pf' parseField_mono [OF pf]] IH
  show "P i pos els (parseFields cfg msg bs (i + 1) pos' els') (loopReads cfg msg bs i pos)"
    unfolding loopReads_field [OF le bit pf'] els' by simp
next
  fix i :: int and pos :: int and els :: elements and r :: "int result" and els' :: elements
  assume le: "i \<le> 128" and bit: "bitTest bs i = Some True"
    and pf: "parseField cfg msg i pos els = (r, els')" and nok: "\<forall>p. r \<noteq> Ok p"
  from parseField_fail [OF pf nok] have e: "els' = els" .
  from fail [OF le bit pf [unfolded e] nok]
  show "P i pos els (r, els') (loopReads cfg msg bs i pos)"
    unfolding loopReads_fail [OF le bit pf nok] e .
qed

text \<open>The reads of the loop are of fields from \<open>i\<close> on and end at or after the cursor.\<close>

lemma loopReads_entries:
  "\<forall>(f, t, v) \<in> set (loopReads cfg msg bs i pos). i \<le> f \<and> pos \<le> t"
  apply (rule parse_loop_induct [where cfg = cfg and msg = msg and bs = bs and els = "[]" and
      P = "\<lambda>i pos els res R. \<forall>(f, t, v) \<in> set R. i \<le> f \<and> pos \<le> t"])
  subgoal by simp
  subgoal by simp
  subgoal by fastforce
  subgoal by fastforce
  subgoal by simp
  done

lemma reads_before_none:
  "\<forall>(f, t, v) \<in> set R. int k < t \<Longrightarrow> [(f, v). (f, t, v) \<leftarrow> R, t \<le> int k] = []"
  by (induction R) auto

lemma reads_keys:
  "\<forall>(f, t, v) \<in> set R. (i :: int) < f \<Longrightarrow> map_of [(f, v). (f, t, v) \<leftarrow> R, P t] i = None"
  by (induction R) auto

lemma reads_keys_all:
  "\<forall>(f, t, v) \<in> set R. (i :: int) < f \<Longrightarrow> map_of [(f, v). (f, t, v) \<leftarrow> R] i = None"
  by (induction R) auto

lemma map_add_first:
  "map_of D i = None \<Longrightarrow>
   map_of (AList.update i v els) ++ map_of D = map_of els ++ map_of ((i, v) # D)"
  by (rule ext) (simp add: map_add_def update_conv' split: option.splits)

lemma loopReads_after:
  "\<forall>(f, t, v) \<in> set (loopReads cfg msg bs (i + 1) pos). i < f \<and> pos \<le> t"
  using loopReads_entries [of cfg msg bs "i + 1" pos] by fastforce

text \<open>A cut after every read of the loop changes nothing.\<close>

lemma parseFields_cut_after:
  "(\<forall>(f, t, v) \<in> set (loopReads cfg full bs i pos). t \<le> int k) \<longrightarrow>
     parseFields cfg (take k full) bs i pos els = parseFields cfg full bs i pos els"
  apply (rule parse_loop_induct [where cfg = cfg and msg = full and bs = bs and
      P = "\<lambda>i pos els res R. (\<forall>(f, t, v) \<in> set R. t \<le> int k) \<longrightarrow>
             parseFields cfg (take k full) bs i pos els = res"])
  subgoal by (simp add: parseFields_done)
  subgoal by (simp add: parseFields_panic)
  subgoal by (simp add: parseFields_skip)
  subgoal premises p for i pos els pos' v
    using p(5) parseField_take [OF p(3), of k] by (simp add: parseFields_field [OF p(1,2)])
  subgoal premises p for i pos els r
    using parseField_take_fail [OF p(3,4), of k] p(4)
    by (cases r) (simp_all add: parseFields_field [OF p(1,2)])
  done

text \<open>A cut before the end of a read of the loop: the read panics.\<close>

lemma parseFields_cut_before:
  "(\<exists>(f, t, v) \<in> set (loopReads cfg full bs i pos). int k < t) \<longrightarrow>
     fst (parseFields cfg (take k full) bs i pos els) = Panic SliceBoundsOutOfRange"
  apply (rule parse_loop_induct [where cfg = cfg and msg = full and bs = bs and
      P = "\<lambda>i pos els res R. (\<exists>(f, t, v) \<in> set R. int k < t) \<longrightarrow>
             fst (parseFields cfg (take k full) bs i pos els) = Panic SliceBoundsOutOfRange"])
  subgoal by simp
  subgoal by simp
  subgoal by (simp add: parseFields_skip)
  subgoal premises p for i pos els pos' v
    using p(5) parseField_take [OF p(3), of k] by (simp add: parseFields_field [OF p(1,2)])
  subgoal by simp
  done

text \<open>The map after the loop on a cut message: the fields read before the cut.\<close>

lemma parseFields_cut_map:
  "map_of (snd (parseFields cfg (take k full) bs i pos els))
     = map_of els ++ map_of [(f, v). (f, t, v) \<leftarrow> loopReads cfg full bs i pos, t \<le> int k]"
  apply (rule parse_loop_induct [where cfg = cfg and msg = full and bs = bs and
      P = "\<lambda>i pos els res R. map_of (snd (parseFields cfg (take k full) bs i pos els))
             = map_of els ++ map_of [(f, v). (f, t, v) \<leftarrow> R, t \<le> int k]"])
  subgoal by (simp add: parseFields_done)
  subgoal by (simp add: parseFields_panic)
  subgoal by (simp add: parseFields_skip)
  subgoal premises p for i pos els pos' v
  proof (cases "pos' \<le> int k")
    case True
    let ?D = "[(f, v). (f, t, v) \<leftarrow> loopReads cfg full bs (i + 1) pos', t \<le> int k]"
    from True have c: "[(f, v). (f, t, v) \<leftarrow> (i, pos', v) # loopReads cfg full bs (i + 1) pos',
                          t \<le> int k] = (i, v) # ?D"
      by simp
    from loopReads_after [of cfg full bs i pos']
    have "\<forall>(f, t, v) \<in> set (loopReads cfg full bs (i + 1) pos'). i < f" by fastforce
    from reads_keys [OF this, of "\<lambda>t. t \<le> int k"] have none: "map_of ?D i = None" .
    from parseField_take [OF p(3), of k] True
    have "map_of (snd (parseFields cfg (take k full) bs i pos els))
            = map_of (snd (parseFields cfg (take k full) bs (i + 1) pos' (AList.update i v els)))"
      by (simp add: parseFields_field [OF p(1,2)])
    also have "\<dots> = map_of (AList.update i v els) ++ map_of ?D" by (rule p(5))
    also have "\<dots> = map_of els ++ map_of ((i, v) # ?D)" by (rule map_add_first [OF none])
    finally show ?thesis unfolding c .
  next
    case False
    from loopReads_after [of cfg full bs i pos'] False
    have "\<forall>(f, t, v) \<in> set (loopReads cfg full bs (i + 1) pos'). int k < t" by fastforce
    from reads_before_none [OF this] False
    have c: "[(f, v). (f, t, v) \<leftarrow> (i, pos', v) # loopReads cfg full bs (i + 1) pos',
                t \<le> int k] = []"
      by simp
    from parseField_take [OF p(3), of k] False
    have "parseFields cfg (take k full) bs i pos els = (Panic SliceBoundsOutOfRange, els)"
      by (simp add: parseFields_field [OF p(1,2)])
    then show ?thesis unfolding c by simp
  qed
  subgoal premises p for i pos els r
    using parseField_take_fail [OF p(3,4), of k] p(4)
    by (cases r) (simp_all add: parseFields_field [OF p(1,2)])
  done

text \<open>The map after the loop: the fields read.\<close>

lemma parseFields_map:
  "map_of (snd (parseFields cfg msg bs i pos els))
     = map_of els ++ map_of [(f, v). (f, t, v) \<leftarrow> loopReads cfg msg bs i pos]"
  apply (rule parse_loop_induct [where cfg = cfg and msg = msg and bs = bs and
      P = "\<lambda>i pos els res R. map_of (snd res)
             = map_of els ++ map_of [(f, v). (f, t, v) \<leftarrow> R]"])
  subgoal by simp
  subgoal by simp
  subgoal by simp
  subgoal premises p for i pos els pos' v
  proof -
    let ?D = "[(f, v). (f, t, v) \<leftarrow> loopReads cfg msg bs (i + 1) pos']"
    have c: "[(f, v). (f, t, v) \<leftarrow> (i, pos', v) # loopReads cfg msg bs (i + 1) pos']
               = (i, v) # ?D"
      by simp
    from loopReads_after [of cfg msg bs i pos']
    have "\<forall>(f, t, v) \<in> set (loopReads cfg msg bs (i + 1) pos'). i < f" by fastforce
    from reads_keys_all [OF this] have none: "map_of ?D i = None" .
    note p(5)
    also have "map_of (AList.update i v els) ++ map_of ?D = map_of els ++ map_of ((i, v) # ?D)"
      by (rule map_add_first [OF none])
    finally show ?thesis unfolding c .
  qed
  subgoal by simp
  done

text \<open>The final cursor is the end of the last read.\<close>

lemma parseFields_cursor:
  "\<forall>n els1. parseFields cfg msg bs i pos els = (Ok n, els1) \<longrightarrow>
     (c < n \<longleftrightarrow> c < pos \<or> (\<exists>(f, t, v) \<in> set (loopReads cfg msg bs i pos). c < t))"
  apply (rule parse_loop_induct [where cfg = cfg and msg = msg and bs = bs and
      P = "\<lambda>i pos els res R. \<forall>n els1. res = (Ok n, els1) \<longrightarrow>
             (c < n \<longleftrightarrow> c < pos \<or> (\<exists>(f, t, v) \<in> set R. c < t))"])
  subgoal by simp
  subgoal by simp
  subgoal by simp
  subgoal premises p for i pos els pos' v
    using p(4,5) by auto
  subgoal by simp
  done

text \<open>\<open>Parse\<close> of a message cut after \<open>k\<close> characters, against its reads on the message.\<close>

lemma Parse_pos_cut:
  "((\<forall>(f, t, v) \<in> set (parseReads cfg full). t \<le> int k) \<longrightarrow>
       Parse_pos cfg (take k full) els = Parse_pos cfg full els)
   \<and> ((\<exists>(f, t, v) \<in> set (parseReads cfg full). int k < t) \<longrightarrow>
       fst (Parse_pos cfg (take k full) els) = Panic SliceBoundsOutOfRange)
   \<and> map_of (snd (Parse_pos cfg (take k full) els))
       = map_of els ++ map_of [(f, v). (f, t, v) \<leftarrow> parseReads cfg full, t \<le> int k]
   \<and> map_of (snd (Parse_pos cfg full els))
       = map_of els ++ map_of [(f, v). (f, t, v) \<leftarrow> parseReads cfg full]
   \<and> (\<forall>n els1. Parse_pos cfg full els = (Ok n, els1) \<longrightarrow>
         (int k < n \<longleftrightarrow> (\<exists>(f, t, v) \<in> set (parseReads cfg full). int k < t)))"
proof (cases "cfg 0")
  case None
  then show ?thesis by (simp add: Parse_pos_def parseReads_def)
next
  case m: (Some m)
  show ?thesis
  proof (cases "slice full 0 (MaxLen m)")
    case None
    with m show ?thesis by (simp add: Parse_pos_def parseReads_def slice_take)
  next
    case mti: (Some mti)
    have m0: "map_of (AList.update 0 mti els) = map_of els ++ map_of [(0, mti)]"
      by (rule ext) (simp add: map_add_def update_conv')
    from mti have M0: "0 \<le> MaxLen m" by (simp add: slice_Some)
    have cut0: "slice (take k full) 0 (MaxLen m) = (if MaxLen m \<le> int k then Some mti else None)"
      by (simp add: slice_take mti)
    show ?thesis
    proof (cases "cfg 1")
      case None
      with m mti have R: "parseReads cfg full = [(0, MaxLen m, mti)]"
        and F: "Parse_pos cfg full els = (Err BitmapConfigMissing, AList.update 0 mti els)"
        by (simp_all add: Parse_pos_def parseReads_def Let_def)
      from m None cut0
      have T: "Parse_pos cfg (take k full) els =
            (if MaxLen m \<le> int k then (Err BitmapConfigMissing, AList.update 0 mti els)
             else (Panic SliceBoundsOutOfRange, els))"
        by (simp add: Parse_pos_def Let_def)
      from m0 show ?thesis unfolding R F T by simp
    next
      case b: (Some b)
      show ?thesis
      proof (cases "slice full (MaxLen m) (MaxLen m + MaxLen b)")
        case None
        with m mti b have R: "parseReads cfg full = [(0, MaxLen m, mti)]"
          and F: "Parse_pos cfg full els = (Panic SliceBoundsOutOfRange, AList.update 0 mti els)"
          by (simp_all add: Parse_pos_def parseReads_def Let_def)
        from None have "slice (take k full) (MaxLen m) (MaxLen m + MaxLen b) = None"
          by (simp add: slice_take)
        with m b cut0
        have T: "Parse_pos cfg (take k full) els =
              (if MaxLen m \<le> int k then (Panic SliceBoundsOutOfRange, AList.update 0 mti els)
               else (Panic SliceBoundsOutOfRange, els))"
          by (simp add: Parse_pos_def Let_def)
        from m0 show ?thesis unfolding R F T by simp
      next
        case hex: (Some hex)
        let ?els2 = "AList.update 1 hex (AList.update 0 mti els)"
        let ?pos = "MaxLen m + MaxLen b"
        from hex have M1: "MaxLen m \<le> ?pos" by (simp add: slice_Some)
        have cut1: "slice (take k full) (MaxLen m) ?pos = (if ?pos \<le> int k then Some hex else None)"
          by (simp add: slice_take hex)
        have m01: "map_of ?els2 = map_of els ++ map_of [(0, mti), (1, hex)]"
          by (rule ext) (simp add: map_add_def update_conv')
        show ?thesis
        proof (cases "DecodeString hex")
          case (Inl e)
          with m mti b hex have R: "parseReads cfg full = [(0, MaxLen m, mti), (1, ?pos, hex)]"
            and F: "Parse_pos cfg full els = (Err e, ?els2)"
            by (simp_all add: Parse_pos_def parseReads_def Let_def)
          from m b cut0 cut1 Inl M1
          have T: "Parse_pos cfg (take k full) els =
                (if ?pos \<le> int k then (Err e, ?els2)
                 else if MaxLen m \<le> int k then (Panic SliceBoundsOutOfRange, AList.update 0 mti els)
                 else (Panic SliceBoundsOutOfRange, els))"
            by (simp add: Parse_pos_def Let_def)
          from M1 m0 m01 show ?thesis unfolding R F T by simp
        next
          case (Inr bs)
          let ?L = "loopReads cfg full bs 2 ?pos"
          from m mti b hex Inr have R: "parseReads cfg full = (0, MaxLen m, mti) # (1, ?pos, hex) # ?L"
            and F: "Parse_pos cfg full els = parseFields cfg full bs 2 ?pos ?els2"
            by (simp_all add: Parse_pos_def parseReads_def Let_def)
          from m b cut0 cut1 Inr M1
          have T: "Parse_pos cfg (take k full) els =
                (if ?pos \<le> int k then parseFields cfg (take k full) bs 2 ?pos ?els2
                 else if MaxLen m \<le> int k then (Panic SliceBoundsOutOfRange, AList.update 0 mti els)
                 else (Panic SliceBoundsOutOfRange, els))"
            by (simp add: Parse_pos_def Let_def)
          from loopReads_entries [of cfg full bs 2 ?pos]
          have ent: "\<forall>(f, t, v) \<in> set ?L. 1 < f" "\<forall>(f, t, v) \<in> set ?L. 0 < f"
            "\<forall>(f, t, v) \<in> set ?L. ?pos \<le> t"
            by fastforce+
          have join: "map_of ?els2 ++ map_of D = map_of els ++ map_of ((0, mti) # (1, hex) # D)"
            if "map_of D 0 = None" and "map_of D 1 = None" for D
          proof -
            from that(1) have "map_of ((1, hex) # D) 0 = None" by simp
            from map_add_first [OF that(2), of hex "AList.update 0 mti els"]
              map_add_first [OF this, of mti els]
            show ?thesis by simp
          qed
          have c4: "map_of (snd (Parse_pos cfg full els))
                      = map_of els ++ map_of [(f, v). (f, t, v) \<leftarrow> parseReads cfg full]"
          proof -
            let ?D = "[(f, v). (f, t, v) \<leftarrow> ?L]"
            have "[(f, v). (f, t, v) \<leftarrow> (0, MaxLen m, mti) # (1, ?pos, hex) # ?L]
                    = (0, mti) # (1, hex) # ?D"
              by simp
            with join [OF reads_keys_all [OF ent(2)] reads_keys_all [OF ent(1)]]
              parseFields_map [of cfg full bs 2 ?pos ?els2]
            show ?thesis unfolding R F by simp
          qed
          have c5: "\<forall>n els1. Parse_pos cfg full els = (Ok n, els1) \<longrightarrow>
              (int k < n \<longleftrightarrow> (\<exists>(f, t, v) \<in> set (parseReads cfg full). int k < t))"
            using parseFields_cursor [of cfg full bs 2 ?pos ?els2 "int k"] M1
            unfolding R F by auto
          show ?thesis
          proof (cases "?pos \<le> int k")
            case True
            with M1 have le0: "MaxLen m \<le> int k" by simp
            let ?D = "[(f, v). (f, t, v) \<leftarrow> ?L, t \<le> int k]"
            from True T
            have T': "Parse_pos cfg (take k full) els = parseFields cfg (take k full) bs 2 ?pos ?els2"
              by simp
            from True le0 have c: "[(f, v). (f, t, v) \<leftarrow> (0, MaxLen m, mti) # (1, ?pos, hex) # ?L,
                                       t \<le> int k] = (0, mti) # (1, hex) # ?D"
              by simp
            from parseFields_cut_after [of cfg full bs 2 ?pos k ?els2]
            have c1: "(\<forall>(f, t, v) \<in> set (parseReads cfg full). t \<le> int k) \<longrightarrow>
                Parse_pos cfg (take k full) els = Parse_pos cfg full els"
              unfolding R F T' by simp
            from parseFields_cut_before [of cfg full bs 2 ?pos k ?els2] True le0
            have c2: "(\<exists>(f, t, v) \<in> set (parseReads cfg full). int k < t) \<longrightarrow>
                fst (Parse_pos cfg (take k full) els) = Panic SliceBoundsOutOfRange"
              unfolding R F T' by simp
            from join [OF reads_keys [OF ent(2), of "\<lambda>t. t \<le> int k"]
                reads_keys [OF ent(1), of "\<lambda>t. t \<le> int k"]]
              parseFields_cut_map [of cfg k full bs 2 ?pos ?els2]
            have c3: "map_of (snd (Parse_pos cfg (take k full) els))
                = map_of els ++ map_of [(f, v). (f, t, v) \<leftarrow> parseReads cfg full, t \<le> int k]"
              unfolding R T' c by simp
            from c1 c2 c3 c4 c5 show ?thesis by blast
          next
            case False
            with ent(3) have "\<forall>(f, t, v) \<in> set ?L. int k < t" by fastforce
            from reads_before_none [OF this] False
            have c: "[(f, v). (f, t, v) \<leftarrow> (0, MaxLen m, mti) # (1, ?pos, hex) # ?L, t \<le> int k]
                       = (if MaxLen m \<le> int k then [(0, mti)] else [])"
              by simp
            from False T
            have T': "Parse_pos cfg (take k full) els =
                (if MaxLen m \<le> int k then (Panic SliceBoundsOutOfRange, AList.update 0 mti els)
                 else (Panic SliceBoundsOutOfRange, els))"
              by simp
            from False have c1: "(\<forall>(f, t, v) \<in> set (parseReads cfg full). t \<le> int k) \<longrightarrow>
                Parse_pos cfg (take k full) els = Parse_pos cfg full els"
              unfolding R by simp
            have c2: "(\<exists>(f, t, v) \<in> set (parseReads cfg full). int k < t) \<longrightarrow>
                fst (Parse_pos cfg (take k full) els) = Panic SliceBoundsOutOfRange"
              unfolding T' by simp
            from m0 have c3: "map_of (snd (Parse_pos cfg (take k full) els))
                = map_of els ++ map_of [(f, v). (f, t, v) \<leftarrow> parseReads cfg full, t \<le> int k]"
              unfolding R T' c by simp
            from c1 c2 c3 c4 c5 show ?thesis by blast
          qed
        qed
      qed
    qed
  qed
qed

lemma Parse_fst:
  "fst (Parse cfg msg els) = (case fst (Parse_pos cfg msg els) of
      Ok p \<Rightarrow> Ok () | Err e \<Rightarrow> Err e | Panic p \<Rightarrow> Panic p)"
  by (simp add: Parse_def split: prod.splits result.splits)

lemma Parse_snd: "snd (Parse cfg msg els) = snd (Parse_pos cfg msg els)"
  by (simp add: Parse_def split: prod.splits result.splits)

text \<open>
  C4, as the code has it. \<open>Parse\<close> has no length check: every read is a slice expression,
  and \<open>Parse\<close> writes into the map as it goes. Take any message and its first \<open>k\<close>
  characters as input. If one of the reads that \<open>Parse\<close> performs on the message (the MTI,
  the bitmap text, a present field with its length prefix) ends after \<open>k\<close>, the input is
  shorter than the schema and the length prefixes imply, and \<open>Parse\<close> of the input does
  not return an error: it panics with "slice bounds out of range". The map is then the map
  from before, overridden by the fields whose reads end within the input, which are the
  fields decoded before the read that panics; nothing is removed. If every read ends within
  the first \<open>k\<close> characters, \<open>Parse\<close> of the input does what \<open>Parse\<close> of the message
  does. The reads are those of \<open>Parse\<close>: the map after \<open>Parse\<close> of the message is the map
  from before overridden by all of them, and when \<open>Parse\<close> of the message succeeds with its
  cursor at \<open>n\<close>, a read ends after \<open>k\<close> exactly when \<open>k < n\<close>.
\<close>

theorem short_input_panics:
  "((\<forall>(f, t, v) \<in> set (parseReads isoConfig message). t \<le> int k) \<longrightarrow>
       Parse isoConfig (take k message) els = Parse isoConfig message els)
   \<and> ((\<exists>(f, t, v) \<in> set (parseReads isoConfig message). int k < t) \<longrightarrow>
       fst (Parse isoConfig (take k message) els) = Panic SliceBoundsOutOfRange)
   \<and> map_of (snd (Parse isoConfig (take k message) els))
       = map_of els ++ map_of [(f, v). (f, t, v) \<leftarrow> parseReads isoConfig message, t \<le> int k]
   \<and> map_of (snd (Parse isoConfig message els))
       = map_of els ++ map_of [(f, v). (f, t, v) \<leftarrow> parseReads isoConfig message]
   \<and> (\<forall>n els1. Parse_pos isoConfig message els = (Ok n, els1) \<longrightarrow>
         (int k < n \<longleftrightarrow> (\<exists>(f, t, v) \<in> set (parseReads isoConfig message). int k < t)))"
proof -
  note cut = Parse_pos_cut [of isoConfig message k els]
  from cut have c1: "(\<forall>(f, t, v) \<in> set (parseReads isoConfig message). t \<le> int k) \<longrightarrow>
       Parse isoConfig (take k message) els = Parse isoConfig message els"
    by (simp add: Parse_def)
  from cut have c2: "(\<exists>(f, t, v) \<in> set (parseReads isoConfig message). int k < t) \<longrightarrow>
       fst (Parse isoConfig (take k message) els) = Panic SliceBoundsOutOfRange"
    by (simp add: Parse_fst)
  from cut have c3: "map_of (snd (Parse isoConfig (take k message) els))
       = map_of els ++ map_of [(f, v). (f, t, v) \<leftarrow> parseReads isoConfig message, t \<le> int k]"
    unfolding Parse_snd by blast
  from cut have c4: "map_of (snd (Parse isoConfig message els))
       = map_of els ++ map_of [(f, v). (f, t, v) \<leftarrow> parseReads isoConfig message]"
    unfolding Parse_snd by blast
  from cut have c5: "\<forall>n els1. Parse_pos isoConfig message els = (Ok n, els1) \<longrightarrow>
         (int k < n \<longleftrightarrow> (\<exists>(f, t, v) \<in> set (parseReads isoConfig message). int k < t))"
    by blast
  from c1 c2 c3 c4 c5 show ?thesis by blast
qed

text \<open>
  The message of the end-to-end example cut after 30 characters, in the middle of the
  account number; and a message of 60 characters, parsed into a map that holds field 5, cut
  after 40.
\<close>

theorem short_input_panics_witness:
  "parseReads exampleConfig ''02006000000000000000164111111111111111000000''
     = [(0, 4, ''0200''), (1, 20, ''6000000000000000''), (2, 38, ''4111111111111111''),
        (3, 44, ''000000'')]
   \<and> take 30 ''02006000000000000000164111111111111111000000''
       = ''020060000000000000001641111111''
   \<and> fst (Parse exampleConfig ''020060000000000000001641111111'' [])
       = Panic SliceBoundsOutOfRange
   \<and> map_of (snd (Parse exampleConfig ''020060000000000000001641111111'' []))
       = map_of [(0, ''0200''), (1, ''6000000000000000'')]
   \<and> map_of (snd (Parse exampleConfig ''02006000000000000000164111111111111111000000'' []))
       = map_of [(0, ''0200''), (1, ''6000000000000000''), (2, ''4111111111111111''),
                 (3, ''000000'')]
   \<and> Parse_pos wideConfig wideMessage [(5, ''old'')]
       = (Ok 60, [(5, ''old''), (0, ''0200''), (1, ''60000000000000000000000000000000''),
                  (2, ''4111111111111111''), (3, ''000000'')])
   \<and> fst (Parse wideConfig (take 40 wideMessage) [(5, ''old'')]) = Panic SliceBoundsOutOfRange
   \<and> map_of (snd (Parse wideConfig (take 40 wideMessage) [(5, ''old'')]))
       = map_of [(5, ''old''), (0, ''0200''), (1, ''60000000000000000000000000000000'')]"
proof -
  let ?msg = "''02006000000000000000164111111111111111000000''"
  have r: "parseReads exampleConfig ?msg
     = [(0, 4, ''0200''), (1, 20, ''6000000000000000''), (2, 38, ''4111111111111111''),
        (3, 44, ''000000'')]"
    by code_simp
  have tk: "take 30 ?msg = ''020060000000000000001641111111''" by code_simp
  have ex: "\<exists>(f, t, v) \<in> set (parseReads exampleConfig ?msg). int 30 < t" unfolding r by simp
  have w: "parseReads wideConfig wideMessage
     = [(0, 4, ''0200''), (1, 36, ''60000000000000000000000000000000''),
        (2, 54, ''4111111111111111''), (3, 60, ''000000'')]"
    by code_simp
  have p: "Parse_pos wideConfig wideMessage [(5, ''old'')]
       = (Ok 60, [(5, ''old''), (0, ''0200''), (1, ''60000000000000000000000000000000''),
                  (2, ''4111111111111111''), (3, ''000000'')])"
    by code_simp
  note a = short_input_panics [of exampleConfig ?msg 30 "[]"]
  note b = short_input_panics [of wideConfig wideMessage 40 "[(5, ''old'')]"]
  from a ex have a2: "fst (Parse exampleConfig (take 30 ?msg) []) = Panic SliceBoundsOutOfRange"
    by blast
  from a have a3: "map_of (snd (Parse exampleConfig (take 30 ?msg) []))
       = map_of [] ++ map_of [(f, v). (f, t, v) \<leftarrow> parseReads exampleConfig ?msg, t \<le> int 30]"
    by blast
  from a have a4: "map_of (snd (Parse exampleConfig ?msg []))
       = map_of [] ++ map_of [(f, v). (f, t, v) \<leftarrow> parseReads exampleConfig ?msg]"
    by blast
  from b p have "int 40 < 60 \<longleftrightarrow> (\<exists>(f, t, v) \<in> set (parseReads wideConfig wideMessage). int 40 < t)"
    by blast
  then have "\<exists>(f, t, v) \<in> set (parseReads wideConfig wideMessage). int 40 < t" by simp
  with b have b2: "fst (Parse wideConfig (take 40 wideMessage) [(5, ''old'')])
       = Panic SliceBoundsOutOfRange"
    by blast
  from b have b3: "map_of (snd (Parse wideConfig (take 40 wideMessage) [(5, ''old'')]))
       = map_of [(5, ''old'')]
         ++ map_of [(f, v). (f, t, v) \<leftarrow> parseReads wideConfig wideMessage, t \<le> int 40]"
    by blast
  have m: "map_of [(5 :: int, ''old'')] ++ map_of [(0, ''0200''), (1, ''60000000000000000000000000000000'')]
             = map_of [(5, ''old''), (0, ''0200''), (1, ''60000000000000000000000000000000'')]"
    by (rule ext) (simp add: map_add_def)
  from a2 a3 a4 b2 b3 m r p show ?thesis unfolding r w tk by simp
qed

text \<open>
  C4, as stated, fails: on the message of the end-to-end example cut in the middle of the
  account number, \<open>Parse\<close> panics instead of returning an error, and the map is left
  with the MTI and the bitmap of the message.
\<close>

theorem short_input_counterexample:
  "Parse exampleConfig ''020060000000000000001641111111'' []
     = (Panic SliceBoundsOutOfRange, [(0, ''0200''), (1, ''6000000000000000'')])"
  by code_simp

section \<open>The bitmap of ComposeMessage\<close>

lemma foldl_max_less:
  "c < foldl (\<lambda>maxField k. if maxField < k then k else maxField) a ks
     \<longleftrightarrow> c < a \<or> (\<exists>k \<in> set ks. c < (k :: int))"
  by (induction ks arbitrary: a) auto

lemma maxFieldOf_gt: "c < maxFieldOf els \<longleftrightarrow> c < 0 \<or> (\<exists>k \<in> fst ` set els. c < k)"
  by (simp add: maxFieldOf_def foldl_max_less)

lemma setBits_None_iff:
  "setBits ks bm = None \<longleftrightarrow> (\<exists>k \<in> set ks. 1 < k \<and> int (length bm) \<le> (k - 1) div 8)"
  by (induction ks arbitrary: bm) (auto simp add: Let_def)

lemma setBits_length: "setBits ks bm = Some bm' \<Longrightarrow> length bm' = length bm"
  by (induction ks arbitrary: bm) (auto simp add: Let_def split: if_splits)

lemma setBits_bit:
  "setBits ks bm = Some bm' \<Longrightarrow> j < length bm \<Longrightarrow>
   bit (bm' ! j) b \<longleftrightarrow>
     bit (bm ! j) b \<or> (\<exists>k \<in> set ks. 1 < k \<and> (k - 1) div 8 = int j \<and> 7 - (k - 1) mod 8 = int b)"
proof (induction ks arbitrary: bm)
  case Nil
  then show ?case by simp
next
  case (Cons k ks)
  show ?case
  proof (cases "1 < k")
    case False
    with Cons.prems Cons.IH [of bm] show ?thesis by simp
  next
    case True
    let ?j = "nat ((k - 1) div 8)"
    let ?bm = "bm[?j := bm ! ?j OR push_bit (nat (7 - (k - 1) mod 8)) 1]"
    from True Cons.prems(1) have inr: "(k - 1) div 8 < int (length bm)"
      and rest: "setBits ks ?bm = Some bm'"
      by (auto simp add: Let_def split: if_splits)
    from True have nn: "0 \<le> (k - 1) div 8" by simp
    have m: "0 \<le> 7 - (k - 1) mod 8" "7 - (k - 1) mod 8 < 8"
      using pos_mod_bound [of 8 "k - 1"] pos_mod_sign [of 8 "k - 1"] by simp_all
    have here: "bit (?bm ! j) b \<longleftrightarrow>
        bit (bm ! j) b \<or> ((k - 1) div 8 = int j \<and> 7 - (k - 1) mod 8 = int b)"
    proof (cases "?j = j")
      case True
      with Cons.prems(2) have "?bm ! j = bm ! j OR push_bit (nat (7 - (k - 1) mod 8)) 1"
        by simp
      then have "bit (?bm ! j) b \<longleftrightarrow> bit (bm ! j) b \<or> b = nat (7 - (k - 1) mod 8)"
        using m by (simp only: bit_or_push_bit_1) auto
      moreover have "b = nat (7 - (k - 1) mod 8) \<longleftrightarrow> 7 - (k - 1) mod 8 = int b"
        using m by auto
      moreover from True nn have "(k - 1) div 8 = int j" by auto
      ultimately show ?thesis by simp
    next
      case False
      with nn have "(k - 1) div 8 \<noteq> int j" by auto
      with False show ?thesis by simp
    qed
    from Cons.IH [OF rest] Cons.prems(2) here True show ?thesis by auto
  qed
qed

lemma byte_list_eqI:
  assumes "length (xs :: byte list) = length ys"
    and "\<And>j b. j < length xs \<Longrightarrow> b < 8 \<Longrightarrow> bit (xs ! j) b \<longleftrightarrow> bit (ys ! j) b"
  shows "xs = ys"
proof (rule nth_equalityI [OF assms(1)])
  fix j assume j: "j < length xs"
  show "xs ! j = ys ! j"
  proof (rule bit_eqI)
    fix b
    show "bit (xs ! j) b \<longleftrightarrow> bit (ys ! j) b"
    proof (cases "b < 8")
      case True
      with j show ?thesis by (rule assms(2))
    next
      case False
      then show ?thesis using byte_bit_lt by blast
    qed
  qed
qed

lemma setBits_cong:
  assumes "{k \<in> set ks1. 1 < k} = {k \<in> set ks2. 1 < k}"
  shows "setBits ks1 bm = setBits ks2 bm"
proof -
  from assms have same: "\<And>Q. (\<exists>k \<in> set ks1. 1 < k \<and> Q k) \<longleftrightarrow> (\<exists>k \<in> set ks2. 1 < k \<and> Q k)"
    by blast
  have none_iff: "setBits ks1 bm = None \<longleftrightarrow> setBits ks2 bm = None"
    unfolding setBits_None_iff by (rule same)
  show ?thesis
  proof (cases "setBits ks1 bm")
    case None
    with none_iff show ?thesis by simp
  next
    case (Some b1)
    with none_iff have "setBits ks2 bm \<noteq> None" by simp
    then obtain b2 where s2: "setBits ks2 bm = Some b2" by auto
    have "b1 = b2"
    proof (rule byte_list_eqI)
      show "length b1 = length b2" using setBits_length [OF Some] setBits_length [OF s2] by simp
    next
      fix j b assume "j < length b1"
      then have j: "j < length bm" using setBits_length [OF Some] by simp
      show "bit (b1 ! j) b \<longleftrightarrow> bit (b2 ! j) b"
        unfolding setBits_bit [OF Some j] setBits_bit [OF s2 j]
        using same [of "\<lambda>k. (k - 1) div 8 = int j \<and> 7 - (k - 1) mod 8 = int b"] by simp
    qed
    with Some s2 show ?thesis by simp
  qed
qed

lemma composeBitmap_cong:
  assumes "fst ` set e1 - {1} = fst ` set e2 - {1}"
  shows "composeBitmap e1 = composeBitmap e2"
proof -
  from assms have k: "\<And>k. k \<noteq> 1 \<Longrightarrow> k \<in> fst ` set e1 \<longleftrightarrow> k \<in> fst ` set e2" by blast
  have gt: "\<And>c. 1 \<le> c \<Longrightarrow> (\<exists>k \<in> fst ` set e1. c < k) \<longleftrightarrow> (\<exists>k \<in> fst ` set e2. c < k)"
  proof -
    fix c :: int assume c: "1 \<le> c"
    have "\<And>x. c < x \<Longrightarrow> x \<in> fst ` set e1 \<longleftrightarrow> x \<in> fst ` set e2"
      using c k by simp
    then show "(\<exists>k \<in> fst ` set e1. c < k) \<longleftrightarrow> (\<exists>k \<in> fst ` set e2. c < k)" by blast
  qed
  have "(64 < maxFieldOf e1) = (64 < maxFieldOf e2)"
    unfolding maxFieldOf_gt using gt [of 64] by simp
  moreover have "{k \<in> set (map fst e1). 1 < k} = {k \<in> set (map fst e2). 1 < k}"
  proof (rule Collect_cong)
    fix x :: int
    show "x \<in> set (map fst e1) \<and> 1 < x \<longleftrightarrow> x \<in> set (map fst e2) \<and> 1 < x"
      using k [of x] by (cases "1 < x") simp_all
  qed
  ultimately show ?thesis
    by (simp add: composeBitmap_def Let_def setBits_cong [of "map fst e1" "map fst e2"])
qed

section \<open>The loop of ComposeMessage\<close>

lemma composeFields_done: "128 < i \<Longrightarrow> composeFields cfg els i message = Ok message"
  by (subst composeFields.simps) simp

lemma composeFields_step:
  "i \<le> 128 \<Longrightarrow> composeFields cfg els i message =
     (case map_of els i of
        None \<Rightarrow> composeFields cfg els (i + 1) message
      | Some val \<Rightarrow>
          (case cfg i of
             None \<Rightarrow> Err (ConfigNotFound i)
           | Some fieldConfig \<Rightarrow>
               if LenType fieldConfig = ''fixed'' then
                 (case padValue val (MaxLen fieldConfig) (ContentType fieldConfig) of
                    None \<Rightarrow> Panic SliceBoundsOutOfRange
                  | Some padded \<Rightarrow> composeFields cfg els (i + 1) (message @ padded))
               else if LenType fieldConfig = ''llvar'' then
                 composeFields cfg els (i + 1) (message @ Sprintf_0d 2 (length val) @ val)
               else if LenType fieldConfig = ''lllvar'' then
                 composeFields cfg els (i + 1) (message @ Sprintf_0d 3 (length val) @ val)
               else Err (UnknownLenType i)))"
  by (subst composeFields.simps) simp

lemma composeFields_cong:
  assumes "\<forall>k. 2 \<le> k \<longrightarrow> map_of e1 k = map_of e2 k"
  shows "2 \<le> i \<Longrightarrow> composeFields cfg e1 i message = composeFields cfg e2 i message"
proof (induction "nat (129 - i)" arbitrary: i message)
  case 0
  then have "128 < i" by simp
  then show ?case by (simp add: composeFields_done)
next
  case (Suc n)
  then have le: "i \<le> 128" and n: "n = nat (129 - (i + 1))" and i2: "2 \<le> i + 1"
    by simp_all
  note IH = Suc.hyps(1) [OF n i2]
  from assms Suc.prems have same: "map_of e1 i = map_of e2 i" by simp
  show ?case
    unfolding composeFields_step [OF le, of cfg e1] composeFields_step [OF le, of cfg e2] same
    by (simp add: IH split: option.splits)
qed

lemma composeFields_prefix:
  "composeFields cfg els i message = Ok out \<Longrightarrow> \<exists>rest. out = message @ rest"
proof (induction "nat (129 - i)" arbitrary: i message)
  case 0
  then have "128 < i" by simp
  with 0 show ?case by (simp add: composeFields_done)
next
  case (Suc n)
  then have le: "i \<le> 128" and n: "n = nat (129 - (i + 1))" by simp_all
  note IH = Suc.hyps(1) [OF n]
  from Suc.prems show ?case
    unfolding composeFields_step [OF le]
    by (auto split: option.splits if_splits dest!: IH)
qed

lemma ComposeMessage_cong:
  assumes "\<forall>k. k \<noteq> 1 \<longrightarrow> map_of e1 k = map_of e2 k" and "map_of e1 0 \<noteq> None"
  shows "ComposeMessage cfg e1 = ComposeMessage cfg e2"
proof -
  from assms have m0: "map_of e2 0 = map_of e1 0" by simp
  with assms(2) have ne: "e1 \<noteq> []" "e2 \<noteq> []" by auto
  have "dom (map_of e1) - {1} = dom (map_of e2) - {1}"
    using assms(1) by (auto simp add: dom_def)
  then have "fst ` set e1 - {1} = fst ` set e2 - {1}"
    by (simp add: dom_map_of_conv_image_fst)
  then have bm: "composeBitmap e1 = composeBitmap e2" by (rule composeBitmap_cong)
  from assms(1) have "\<forall>k. 2 \<le> k \<longrightarrow> map_of e1 k = map_of e2 k" by simp
  then have "\<And>message. composeFields cfg e1 2 message = composeFields cfg e2 2 message"
    by (intro composeFields_cong) simp_all
  with ne m0 bm show ?thesis
    by (simp add: ComposeMessage_def split: option.splits)
qed

text \<open>
  C7. \<open>ComposeMessage\<close> never reads field 1. For a map that holds field 0, the result
  (the composed text, or the error or panic) is the same with field 1 set to any value
  and with field 1 absent, and the same for any two values of field 1: the bitmap is
  computed from the keys above 1.
\<close>

theorem compose_ignores_field_1:
  assumes "map_of els 0 = Some mti"
  shows "ComposeMessage isoConfig (SetField 1 v els) = ComposeMessage isoConfig (AList.delete 1 els)
       \<and> ComposeMessage isoConfig (SetField 1 v els) = ComposeMessage isoConfig (SetField 1 w els)"
proof -
  have a: "\<forall>k. k \<noteq> 1 \<longrightarrow> map_of (SetField 1 v els) k = map_of (AList.delete 1 els) k"
    by (simp add: SetField_def update_conv' delete_conv')
  have b: "\<forall>k. k \<noteq> 1 \<longrightarrow> map_of (SetField 1 v els) k = map_of (SetField 1 w els) k"
    by (simp add: SetField_def update_conv')
  from assms have c: "map_of (SetField 1 v els) 0 \<noteq> None"
    by (simp add: SetField_def update_conv')
  from ComposeMessage_cong [OF a c] ComposeMessage_cong [OF b c] show ?thesis by simp
qed

text \<open>The fields of the end-to-end example, with field 1 set to sixteen times F.\<close>

theorem compose_ignores_field_1_witness:
  "map_of exampleFields 0 = Some ''0200''
   \<and> ComposeMessage exampleConfig (SetField 1 ''FFFFFFFFFFFFFFFF'' exampleFields)
       = Ok ''02006000000000000000164111111111111111000000''
   \<and> ComposeMessage exampleConfig (AList.delete 1 exampleFields)
       = Ok ''02006000000000000000164111111111111111000000''"
proof -
  have h: "map_of exampleFields 0 = Some ''0200''" by code_simp
  have e: "ComposeMessage exampleConfig (AList.delete 1 exampleFields)
       = Ok ''02006000000000000000164111111111111111000000''"
    by code_simp
  from compose_ignores_field_1 [OF h, of exampleConfig "''FFFFFFFFFFFFFFFF''"] h e
  show ?thesis by simp
qed

section \<open>The composed bitmap, bit by bit\<close>

lemma bitTest_bit:
  "1 \<le> i \<Longrightarrow> i \<le> 8 * int (length bm) \<Longrightarrow>
   bitTest bm i = Some (bit (bm ! nat ((i - 1) div 8)) (nat (7 - (i - 1) mod 8)))"
proof -
  assume i: "1 \<le> i" "i \<le> 8 * int (length bm)"
  then have "bitTest bm i \<noteq> None" by (simp add: bitTest_None_iff)
  then show ?thesis
    using pos_and_push_bit_iff [of "bm ! nat ((i - 1) div 8)" "nat (7 - (i - 1) mod 8)"]
    by (auto simp add: bitTest_def split: if_splits)
qed

lemma div_mod_8_eq: "(k - 1) div 8 = (i - 1) div 8 \<and> (k - 1) mod 8 = (i - 1) mod 8 \<longleftrightarrow> k = (i :: int)"
  by (metis add_diff_cancel_right' diff_add_cancel mult_div_mod_eq)

lemma composeBitmap_bits:
  assumes "\<forall>k \<in> fst ` set els. k \<le> 128"
  shows "\<exists>bm. composeBitmap els = Some bm
          \<and> length bm = (if \<exists>k \<in> fst ` set els. 64 < k then 16 else 8)
          \<and> (\<forall>i. 1 \<le> i \<and> i \<le> 8 * int (length bm) \<longrightarrow>
                 bitTest bm i = Some (((\<exists>k \<in> fst ` set els. 64 < k) \<and> i = 1)
                                       \<or> (1 < i \<and> i \<in> fst ` set els)))"
proof -
  define sec where "sec \<longleftrightarrow> (\<exists>k \<in> fst ` set els. 64 < k)"
  define init :: "byte list"
    where "init = (if sec then (replicate 16 0)[0 := replicate 16 0 ! 0 OR 0x80] else replicate 8 0)"
  have len: "length init = (if sec then 16 else 8)" by (simp add: init_def)
  have cb: "composeBitmap els = setBits (map fst els) init"
    by (simp add: composeBitmap_def Let_def maxFieldOf_gt sec_def init_def)
  have x80: "(0x80 :: byte) = 0 OR push_bit 7 1" by simp
  have init_bit: "bit (init ! j) b \<longleftrightarrow> sec \<and> j = 0 \<and> b = 7" if "j < length init" for j b
  proof (cases sec)
    case False
    with that show ?thesis by (simp add: init_def)
  next
    case True
    show ?thesis
    proof (cases j)
      case 0
      have "bit ((0 :: byte) OR push_bit 7 1) b \<longleftrightarrow> b = 7"
        by (simp only: bit_or_push_bit_1) simp
      with True 0 show ?thesis by (simp add: init_def)
    next
      case (Suc j')
      with True that show ?thesis by (simp add: init_def)
    qed
  qed
  have inrange: "\<not> int (length init) \<le> (k - 1) div 8" if "k \<in> set (map fst els)" for k
  proof (cases sec)
    case True
    from that assms have "k \<le> 128" by auto
    with True len show ?thesis by simp
  next
    case False
    with that have "k \<le> 64" by (force simp add: sec_def)
    with False len show ?thesis by simp
  qed
  then have "setBits (map fst els) init \<noteq> None"
    unfolding setBits_None_iff by blast
  then obtain bm where bm: "setBits (map fst els) init = Some bm" by auto
  have lbm: "length bm = length init" by (rule setBits_length [OF bm])
  have "bitTest bm i = Some ((sec \<and> i = 1) \<or> (1 < i \<and> i \<in> fst ` set els))"
    if i: "1 \<le> i" "i \<le> 8 * int (length bm)" for i
  proof -
    let ?j = "nat ((i - 1) div 8)" and ?b = "nat (7 - (i - 1) mod 8)"
    from i have j: "?j < length init" "int ?j = (i - 1) div 8" using lbm by simp_all
    have b: "int ?b = 7 - (i - 1) mod 8"
      using pos_mod_bound [of 8 "i - 1"] by simp
    have first: "?j = 0 \<and> ?b = 7 \<longleftrightarrow> i = 1"
    proof -
      have "?j = 0 \<and> ?b = 7 \<longleftrightarrow> (i - 1) div 8 = 0 \<and> (i - 1) mod 8 = 0"
        using j(2) b by linarith
      also have "\<dots> \<longleftrightarrow> i = 1"
        using div_mod_8_eq [of 1 i] by auto
      finally show ?thesis .
    qed
    have "bit (bm ! ?j) ?b \<longleftrightarrow> bit (init ! ?j) ?b
         \<or> (\<exists>k \<in> set (map fst els). 1 < k \<and> (k - 1) div 8 = int ?j \<and> 7 - (k - 1) mod 8 = int ?b)"
      by (rule setBits_bit [OF bm j(1)])
    also have "(\<exists>k \<in> set (map fst els). 1 < k \<and> (k - 1) div 8 = int ?j
                  \<and> 7 - (k - 1) mod 8 = int ?b)
               \<longleftrightarrow> (\<exists>k \<in> fst ` set els. 1 < k \<and> k = i)"
      unfolding j(2) b using div_mod_8_eq [of _ i] by auto
    also have "bit (init ! ?j) ?b \<longleftrightarrow> sec \<and> i = 1"
      using init_bit [OF j(1), of ?b] first by simp
    finally have "bit (bm ! ?j) ?b \<longleftrightarrow> (sec \<and> i = 1) \<or> (1 < i \<and> i \<in> fst ` set els)"
      by auto
    with bitTest_bit [OF i] show ?thesis by simp
  qed
  with cb bm lbm len show ?thesis unfolding sec_def by auto
qed

text \<open>The loop over the fields returns a message when every present field can be encoded.\<close>

lemma padValue_Some: "0 \<le> maxLen \<Longrightarrow> \<exists>padded. padValue val maxLen contentType = Some padded"
  by (simp add: padValue_def slice_def)

lemma composeFields_succeeds:
  assumes "\<And>k v. 2 \<le> k \<Longrightarrow> k \<le> 128 \<Longrightarrow> map_of els k = Some v \<Longrightarrow>
             \<exists>fieldConfig. cfg k = Some fieldConfig
               \<and> (LenType fieldConfig = ''fixed'' \<and> 0 \<le> MaxLen fieldConfig
                    \<or> LenType fieldConfig = ''llvar'' \<or> LenType fieldConfig = ''lllvar'')"
  shows "2 \<le> i \<Longrightarrow> \<exists>data. composeFields cfg els i message = Ok (message @ data)"
proof (induction "nat (129 - i)" arbitrary: i message)
  case 0
  then have "128 < i" by simp
  then show ?case by (simp add: composeFields_done)
next
  case (Suc n)
  then have le: "i \<le> 128" and n: "n = nat (129 - (i + 1))" and i2: "2 \<le> i" "2 \<le> i + 1"
    by simp_all
  note IH = Suc.hyps(1) [OF n i2(2)]
  show ?case
  proof (cases "map_of els i")
    case None
    with IH [of message] show ?thesis by (simp add: composeFields_step [OF le])
  next
    case (Some v)
    from assms [OF i2(1) le Some] obtain fieldConfig where c: "cfg i = Some fieldConfig"
      and t: "LenType fieldConfig = ''fixed'' \<and> 0 \<le> MaxLen fieldConfig
                \<or> LenType fieldConfig = ''llvar'' \<or> LenType fieldConfig = ''lllvar''"
      by blast
    show ?thesis
    proof (cases "LenType fieldConfig = ''fixed''")
      case True
      with t have "0 \<le> MaxLen fieldConfig" by auto
      from padValue_Some [OF this, of v "ContentType fieldConfig"] obtain padded
        where p: "padValue v (MaxLen fieldConfig) (ContentType fieldConfig) = Some padded" ..
      from IH [of "message @ padded"] obtain data
        where "composeFields cfg els (i + 1) (message @ padded) = Ok ((message @ padded) @ data)" ..
      with Some c True p have "composeFields cfg els i message = Ok (message @ padded @ data)"
        by (simp add: composeFields_step [OF le])
      then show ?thesis ..
    next
      case nf: False
      define x where "x = (if LenType fieldConfig = ''llvar'' then Sprintf_0d 2 (length v)
                           else Sprintf_0d 3 (length v)) @ v"
      from IH [of "message @ x"] obtain data
        where "composeFields cfg els (i + 1) (message @ x) = Ok ((message @ x) @ data)" ..
      with Some c nf t have "composeFields cfg els i message = Ok (message @ x @ data)"
        by (auto simp add: composeFields_step [OF le] x_def)
      then show ?thesis ..
    qed
  qed
qed

text \<open>
  C5. Let the keys of the map be at most 128 (the present fields, with the MTI under 0),
  and let the map hold field 0. Then \<open>ComposeMessage\<close> builds a bitmap such that: when
  no key is above 64 it has 8 bytes, bit 1 is clear, and for each index from 2 to 64 the
  bit is set exactly when the index is a key; when a key is above 64 it has 16 bytes, bit 1
  is set, and for each index from 2 to 128 the bit is set exactly when the index is a key.
  The bits are read with the bit test of \<open>Parse\<close>. The bitmap is emitted as twice as
  many upper-case hexadecimal digits, which decode to these bytes, right after the MTI:
  \<open>ComposeMessage\<close> returns what its loop over the fields returns from the MTI followed
  by these digits, so every message it returns starts with them; and it does return a
  message, starting with them, whenever every present field from 2 to 128 has a schema
  entry that is fixed with a width that is not negative, llvar or lllvar.
\<close>

theorem compose_bitmap_correct:
  assumes "\<forall>k \<in> dom (map_of els). k \<le> 128" and "map_of els 0 = Some mti"
  shows "\<exists>bitmap. composeBitmap els = Some bitmap
     \<and> ((\<forall>k \<in> dom (map_of els). k \<le> 64) \<longrightarrow>
          length bitmap = 8 \<and> bitTest bitmap 1 = Some False
          \<and> (\<forall>i \<in> {2..64}. bitTest bitmap i = Some (i \<in> dom (map_of els))))
     \<and> ((\<exists>k \<in> dom (map_of els). 64 < k) \<longrightarrow>
          length bitmap = 16 \<and> bitTest bitmap 1 = Some True
          \<and> (\<forall>i \<in> {2..128}. bitTest bitmap i = Some (i \<in> dom (map_of els))))
     \<and> length (ToUpper (EncodeToString bitmap)) = 2 * length bitmap
     \<and> DecodeString (ToUpper (EncodeToString bitmap)) = Inr bitmap
     \<and> (\<forall>out. ComposeMessage isoConfig els = Ok out \<longrightarrow>
           (\<exists>data. out = mti @ ToUpper (EncodeToString bitmap) @ data))
     \<and> ComposeMessage isoConfig els
          = composeFields isoConfig els 2 (mti @ ToUpper (EncodeToString bitmap))
     \<and> ((\<forall>k v. 2 \<le> k \<and> k \<le> 128 \<and> map_of els k = Some v \<longrightarrow>
            (\<exists>fieldConfig. isoConfig k = Some fieldConfig
               \<and> (LenType fieldConfig = ''fixed'' \<and> 0 \<le> MaxLen fieldConfig
                    \<or> LenType fieldConfig = ''llvar'' \<or> LenType fieldConfig = ''lllvar''))) \<longrightarrow>
          (\<exists>data. ComposeMessage isoConfig els
                     = Ok (mti @ ToUpper (EncodeToString bitmap) @ data)))"
proof -
  have keys: "dom (map_of els) = fst ` set els" by (rule dom_map_of_conv_image_fst)
  from assms(1) have "\<forall>k \<in> fst ` set els. k \<le> 128" by (simp add: keys)
  from composeBitmap_bits [OF this] obtain bm where bm: "composeBitmap els = Some bm"
    and len: "length bm = (if \<exists>k \<in> fst ` set els. 64 < k then 16 else 8)"
    and bits: "\<And>i. 1 \<le> i \<Longrightarrow> i \<le> 8 * int (length bm) \<Longrightarrow>
                 bitTest bm i = Some (((\<exists>k \<in> fst ` set els. 64 < k) \<and> i = 1)
                                       \<or> (1 < i \<and> i \<in> fst ` set els))"
    by blast
  let ?hex = "ToUpper (EncodeToString bm)"
  have small: "length bm = 8 \<and> bitTest bm 1 = Some False
          \<and> (\<forall>i \<in> {2..64}. bitTest bm i = Some (i \<in> dom (map_of els)))"
    if "\<forall>k \<in> dom (map_of els). k \<le> 64"
  proof -
    from that have ns: "\<not> (\<exists>k \<in> fst ` set els. 64 < k)" by (force simp add: keys)
    with len have l: "length bm = 8" by simp
    with bits [of 1] ns have "bitTest bm 1 = Some False" by simp
    moreover have "bitTest bm i = Some (i \<in> dom (map_of els))" if "i \<in> {2..64}" for i
      using bits [of i] that l by (simp add: keys)
    ultimately show ?thesis using l by simp
  qed
  have large: "length bm = 16 \<and> bitTest bm 1 = Some True
          \<and> (\<forall>i \<in> {2..128}. bitTest bm i = Some (i \<in> dom (map_of els)))"
    if "\<exists>k \<in> dom (map_of els). 64 < k"
  proof -
    from that have s: "\<exists>k \<in> fst ` set els. 64 < k" by (simp add: keys)
    with len have l: "length bm = 16" by simp
    with bits [of 1] s have "bitTest bm 1 = Some True" by simp
    moreover have "bitTest bm i = Some (i \<in> dom (map_of els))" if "i \<in> {2..128}" for i
      using bits [of i] that l by (simp add: keys)
    ultimately show ?thesis using l by simp
  qed
  from assms(2) have ne: "els \<noteq> []" by auto
  with assms(2) bm
  have eq: "ComposeMessage isoConfig els = composeFields isoConfig els 2 (mti @ ?hex)"
    by (simp add: ComposeMessage_def)
  have out: "\<exists>data. out = mti @ ?hex @ data"
    if "ComposeMessage isoConfig els = Ok out" for out
    using composeFields_prefix [of isoConfig els 2 "mti @ ?hex" out] that eq by simp
  have ok: "\<exists>data. ComposeMessage isoConfig els = Ok (mti @ ?hex @ data)"
    if h: "\<forall>k v. 2 \<le> k \<and> k \<le> 128 \<and> map_of els k = Some v \<longrightarrow>
            (\<exists>fieldConfig. isoConfig k = Some fieldConfig
               \<and> (LenType fieldConfig = ''fixed'' \<and> 0 \<le> MaxLen fieldConfig
                    \<or> LenType fieldConfig = ''llvar'' \<or> LenType fieldConfig = ''lllvar''))"
  proof -
    have "(2 :: int) \<le> 2" by simp
    from composeFields_succeeds [of els isoConfig 2 "mti @ ?hex", OF _ this] h
    obtain data where "composeFields isoConfig els 2 (mti @ ?hex) = Ok ((mti @ ?hex) @ data)"
      by blast
    with eq show ?thesis by simp
  qed
  from bm small large out eq ok show ?thesis
    by (intro exI [of _ bm]) (simp add: length_hex hex_roundtrip)
qed

text \<open>
  A map with the fields 3 and 70, and the fields of the end-to-end example, with the
  messages composed from them.
\<close>

theorem compose_bitmap_correct_witness:
  "map_of [(0, ''0200''), (3 :: int, ''000000''), (70, ''7'')] 0 = Some ''0200''
   \<and> composeBitmap [(0, ''0200''), (3, ''000000''), (70, ''7'')]
       = Some [0xA0, 0, 0, 0, 0, 0, 0, 0, 0x04, 0, 0, 0, 0, 0, 0, 0]
   \<and> bitTest [0xA0, 0, 0, 0, 0, 0, 0, 0, 0x04, 0, 0, 0, 0, 0, 0, 0] 1 = Some True
   \<and> bitTest [0xA0, 0, 0, 0, 0, 0, 0, 0, 0x04, 0, 0, 0, 0, 0, 0, 0] 70 = Some True
   \<and> bitTest [0xA0, 0, 0, 0, 0, 0, 0, 0, 0x04, 0, 0, 0, 0, 0, 0, 0] 71 = Some False
   \<and> ComposeMessage wideConfig [(0, ''0200''), (3, ''000000''), (70, ''7'')]
       = Ok (''0200'' @ ''A0000000000000000400000000000000'' @ ''000000007'')
   \<and> composeBitmap exampleFields = Some [0x60, 0, 0, 0, 0, 0, 0, 0]
   \<and> bitTest [0x60, 0, 0, 0, 0, 0, 0, 0] 1 = Some False
   \<and> bitTest [0x60, 0, 0, 0, 0, 0, 0, 0] 2 = Some True
   \<and> bitTest [0x60, 0, 0, 0, 0, 0, 0, 0] 4 = Some False
   \<and> ComposeMessage exampleConfig exampleFields
       = Ok (''0200'' @ ''6000000000000000'' @ ''164111111111111111000000'')"
proof -
  let ?els = "[(0, ''0200''), (3 :: int, ''000000''), (70, ''7'')]"
  have d: "dom (map_of ?els) = {0, 3, 70}" by auto
  have d': "dom (map_of exampleFields) = {0, 2, 3}" by (auto simp add: exampleFields_def)
  have h1: "\<forall>k \<in> dom (map_of ?els). k \<le> 128" unfolding d by simp
  have h2: "map_of ?els 0 = Some ''0200''" by simp
  have h1': "\<forall>k \<in> dom (map_of exampleFields). k \<le> 128" unfolding d' by simp
  have h2': "map_of exampleFields 0 = Some ''0200''" by (simp add: exampleFields_def)
  have c: "composeBitmap ?els = Some [0xA0, 0, 0, 0, 0, 0, 0, 0, 0x04, 0, 0, 0, 0, 0, 0, 0]"
    by code_simp
  have c': "composeBitmap exampleFields = Some [0x60, 0, 0, 0, 0, 0, 0, 0]" by code_simp
  have m: "ComposeMessage wideConfig ?els
       = Ok (''0200'' @ ''A0000000000000000400000000000000'' @ ''000000007'')"
    by code_simp
  have m': "ComposeMessage exampleConfig exampleFields
       = Ok (''0200'' @ ''6000000000000000'' @ ''164111111111111111000000'')"
    by code_simp
  from compose_bitmap_correct [OF h1 h2, of wideConfig]
       compose_bitmap_correct [OF h1' h2', of exampleConfig]
  show ?thesis unfolding c c' d d' using h2 m m' by simp
qed

section \<open>Handler resolution\<close>

text \<open>
  C9. \<open>AddHandler\<close> stores the handler under the concatenation of its key parts and
  changes no other key. For a message that \<open>Parse\<close> accepts on a fresh object, the
  connection's routing key is the concatenation of \<open>GetField\<close> of the configured field
  indices, in the order of the list. When a handler is registered under that key, the
  response is composed from the object as that handler leaves it; when none is and a
  default handler is set, from the object as the default handler leaves it; when neither
  exists, nothing is composed or written.
\<close>

theorem handler_resolution:
  assumes "Parse cfg message [] = (Ok (), isoObj)"
  shows "tcpHandlerGroup (AddHandler h keyParts t) (concat keyParts) = h
     \<and> (\<forall>k. k \<noteq> concat keyParts \<longrightarrow>
           tcpHandlerGroup (AddHandler h keyParts t) k = tcpHandlerGroup t k)
     \<and> (\<forall>f. handlerChain (concat (map (GetField isoObj) fieldNumber)) = Some f \<longrightarrow>
           handler (Some cfg) defaultHandler (Inr message) handlerChain fieldNumber
             = respond cfg (f isoObj))
     \<and> (\<forall>d. handlerChain (concat (map (GetField isoObj) fieldNumber)) = None
              \<and> defaultHandler = Some d \<longrightarrow>
           handler (Some cfg) defaultHandler (Inr message) handlerChain fieldNumber
             = respond cfg (d isoObj))
     \<and> (handlerChain (concat (map (GetField isoObj) fieldNumber)) = None
          \<and> defaultHandler = None \<longrightarrow>
           handler (Some cfg) defaultHandler (Inr message) handlerChain fieldNumber
             = NoResponse)"
  using assms by (simp add: AddHandler_def handler_def Let_def)

text \<open>
  The routing key is field 0. A handler registered under the parts 02 and 00 is found
  for the MTI 0200; a handler registered under 0210 is not, and the default handler
  runs, or nothing is written when there is none.
\<close>

theorem handler_resolution_witness:
  "Parse wideConfig wideMessage []
     = (Ok (), [(0, ''0200''), (1, ''60000000000000000000000000000000''),
                (2, ''4111111111111111''), (3, ''000000'')])
   \<and> handler (Some wideConfig) (Some (SetField 3 ''222222'')) (Inr wideMessage)
        (tcpHandlerGroup (AddHandler (Some (SetField 3 ''111111'')) [''02'', ''00'']
           (GetEngine 30 [0]))) [0]
       = Written ''004402006000000000000000164111111111111111111111''
   \<and> handler (Some wideConfig) (Some (SetField 3 ''222222'')) (Inr wideMessage)
        (tcpHandlerGroup (AddHandler (Some (SetField 3 ''111111'')) [''0210'']
           (GetEngine 30 [0]))) [0]
       = Written ''004402006000000000000000164111111111111111222222''
   \<and> handler (Some wideConfig) None (Inr wideMessage)
        (tcpHandlerGroup (AddHandler (Some (SetField 3 ''111111'')) [''0210'']
           (GetEngine 30 [0]))) [0]
       = NoResponse"
proof -
  let ?obj = "[(0, ''0200''), (1, ''60000000000000000000000000000000''),
                (2, ''4111111111111111''), (3, ''000000'')]"
  let ?t = "GetEngine 30 [0]"
  let ?f = "SetField 3 ''111111''" and ?d = "SetField 3 ''222222''"
  have h: "Parse wideConfig wideMessage [] = (Ok (), ?obj)" by code_simp
  have key: "concat (map (GetField ?obj) [0]) = ''0200''" by (simp add: GetField_def)
  have r1: "respond wideConfig (?f ?obj)
              = Written ''004402006000000000000000164111111111111111111111''" by code_simp
  have r2: "respond wideConfig (?d ?obj)
              = Written ''004402006000000000000000164111111111111111222222''" by code_simp
  have c1: "tcpHandlerGroup (AddHandler (Some ?f) [''02'', ''00''] ?t) ''0200'' = Some ?f"
    by (simp add: AddHandler_def)
  have c2: "tcpHandlerGroup (AddHandler (Some ?f) [''0210''] ?t) ''0200'' = None"
    by (simp add: AddHandler_def GetEngine_def)
  note R = handler_resolution [OF h, where fieldNumber = "[0]", unfolded key]
  from R [of _ _ _ "tcpHandlerGroup (AddHandler (Some ?f) [''02'', ''00''] ?t)" "Some ?d"] c1
  have a: "handler (Some wideConfig) (Some ?d) (Inr wideMessage)
        (tcpHandlerGroup (AddHandler (Some ?f) [''02'', ''00''] ?t)) [0] = respond wideConfig (?f ?obj)"
    by simp
  from R [of _ _ _ "tcpHandlerGroup (AddHandler (Some ?f) [''0210''] ?t)" "Some ?d"] c2
  have b: "handler (Some wideConfig) (Some ?d) (Inr wideMessage)
        (tcpHandlerGroup (AddHandler (Some ?f) [''0210''] ?t)) [0] = respond wideConfig (?d ?obj)"
    by simp
  from R [of _ _ _ "tcpHandlerGroup (AddHandler (Some ?f) [''0210''] ?t)" None] c2
  have c: "handler (Some wideConfig) None (Inr wideMessage)
        (tcpHandlerGroup (AddHandler (Some ?f) [''0210''] ?t)) [0] = NoResponse"
    by simp
  from h a b c r1 r2 show ?thesis by simp
qed

section \<open>Padding on ASCII values; schemas with a narrow bitmap\<close>

lemma RuneCount_ascii: "isASCII s \<Longrightarrow> RuneCountInString s = length s"
  by (induction s) (simp_all add: isASCII_def runeSize_def)

text \<open>
  On a value of ASCII characters and a width from 0 to a million, \<open>padValue\<close> pads a
  shorter value with zeros on the left when the content type is \<open>n\<close>, with spaces on
  the right otherwise, cuts a longer value to its first characters, and always returns
  a string of the width of the field.
\<close>

theorem padValue_ascii:
  assumes "isASCII val" and "0 \<le> N" and "N \<le> 1000000"
  shows "(int (length val) < N \<and> contentType = ''n'' \<longrightarrow>
            padValue val N contentType
              = Some (replicate (nat N - length val) (CHR ''0'') @ val))
       \<and> (int (length val) < N \<and> contentType \<noteq> ''n'' \<longrightarrow>
            padValue val N contentType
              = Some (val @ replicate (nat N - length val) (CHR '' '')))
       \<and> (N < int (length val) \<longrightarrow> padValue val N contentType = Some (take (nat N) val))
       \<and> (\<exists>v. padValue val N contentType = Some v \<and> int (length v) = N)"
proof -
  from assms(1) have rc: "RuneCountInString val = length val" by (rule RuneCount_ascii)
  show ?thesis
  proof (cases "N < int (length val)")
    case True
    with assms(2) show ?thesis by (simp add: padValue_def slice_def)
  next
    case False
    with assms(2,3) rc show ?thesis
      by (auto simp add: padValue_def Sprintf_pad_def Let_def)
  qed
qed

theorem padValue_ascii_witness:
  "isASCII ''12'' \<and> padValue ''12'' 4 ''n'' = Some ''0012''
   \<and> padValue ''AB'' 4 ''ans'' = Some ''AB  ''
   \<and> padValue ''123456'' 4 ''n'' = Some ''1234''"
proof -
  have a: "isASCII ''12''" "isASCII ''AB''" "isASCII ''123456''" by code_simp+
  have n: "(0::int) \<le> 4" "(4::int) \<le> 1000000" by simp_all
  from padValue_ascii [OF a(1) n, of "''n''"] padValue_ascii [OF a(2) n, of "''ans''"]
    padValue_ascii [OF a(3) n, of "''n''"] a(1)
  show ?thesis by (simp add: numeral_eq_Suc)
qed

text \<open>
  With a schema whose bitmap field has fewer than 32 hexadecimal digits, \<open>Parse\<close> does
  not return success on any message: the decoded bitmap has fewer than 16 bytes.
\<close>

theorem narrow_bitmap_never_parses:
  assumes "isoConfig 1 = Some bitmapConfig" and "MaxLen bitmapConfig < 32"
  shows "fst (Parse isoConfig message els) \<noteq> Ok ()"
proof
  assume "fst (Parse isoConfig message els) = Ok ()"
  then obtain els' where "Parse isoConfig message els = (Ok (), els')"
    by (cases "Parse isoConfig message els") simp
  from Parse_Ok [OF this] obtain n where "Parse_pos isoConfig message els = (Ok n, els')" ..
  then obtain m b mti hex bs where "isoConfig 0 = Some m"
    and "slice message 0 (MaxLen m) = Some mti"
    and b: "isoConfig 1 = Some b"
    and bh: "slice message (MaxLen m) (MaxLen m + MaxLen b) = Some hex"
    and hex: "DecodeString hex = Inr bs"
    and pf: "parseFields isoConfig message bs 2 (MaxLen m + MaxLen b)
           (AList.update 1 hex (AList.update 0 mti els)) = (Ok n, els')"
    by (rule Parse_pos_Ok)
  from slice_length [OF bh] DecodeString_length [OF hex] assms b
  have "length bs < 16" by simp
  from parseFields_short_bitmap [OF this, of 2 isoConfig message "MaxLen m + MaxLen b"
      "AList.update 1 hex (AList.update 0 mti els)" n] pf
  show False by simp
qed

theorem narrow_bitmap_never_parses_witness:
  "exampleConfig 1 = Some (fc ''x'' ''fixed'' 16)
   \<and> fst (Parse exampleConfig ''02000000000000000000'' []) = Panic IndexOutOfRange"
proof -
  have h: "exampleConfig 1 = Some (fc ''x'' ''fixed'' 16)" by code_simp
  have l: "MaxLen (fc ''x'' ''fixed'' 16) < 32" by (simp add: fc_def)
  have e: "fst (Parse exampleConfig ''02000000000000000000'' []) = Panic IndexOutOfRange"
    by code_simp
  from narrow_bitmap_never_parses [where isoConfig = exampleConfig
      and message = "''02000000000000000000''" and els = "[]", OF h l] h e
  show ?thesis by simp
qed

section \<open>Decimal length prefixes\<close>

lemma decimal_digits:
  "\<forall>d \<in> set [0..<10]. isDigit (''0123456789'' ! d) \<and> (of_char (''0123456789'' ! d) :: nat) - 48 = d"
  by code_simp

lemma decimal_digit:
  assumes "d < 10"
  shows "isDigit (''0123456789'' ! d)" and "(of_char (''0123456789'' ! d) :: nat) - 48 = d"
  using decimal_digits assms by simp_all

lemma digitsVal_append: "digitsVal a (xs @ ys) = digitsVal (digitsVal a xs) ys"
  by (induction xs arbitrary: a) simp_all

lemma Itoa_digits: "list_all isDigit (Itoa n)"
proof (induction n rule: Itoa.induct)
  case (1 n)
  show ?case
  proof (cases "n < 10")
    case True
    then show ?thesis by (subst Itoa.simps) (simp add: decimal_digit)
  next
    case False
    then have "n mod 10 < 10" by simp
    with False "1.IH" show ?thesis by (subst Itoa.simps) (simp add: decimal_digit)
  qed
qed

lemma Itoa_value: "digitsVal 0 (Itoa n) = n"
proof (induction n rule: Itoa.induct)
  case (1 n)
  show ?case
  proof (cases "n < 10")
    case True
    then show ?thesis by (subst Itoa.simps) (simp add: decimal_digit)
  next
    case False
    then have "n mod 10 < 10" by simp
    with False "1.IH" show ?thesis
      by (subst Itoa.simps) (simp add: decimal_digit digitsVal_append)
  qed
qed

lemma Itoa_length: "n < 10 ^ W \<Longrightarrow> 0 < W \<Longrightarrow> length (Itoa n) \<le> W"
proof (induction n arbitrary: W rule: Itoa.induct)
  case (1 n)
  show ?case
  proof (cases "n < 10")
    case True
    with "1.prems" show ?thesis by (subst Itoa.simps) simp
  next
    case False
    with "1.prems" obtain W' where W: "W = Suc W'" by (cases W) auto
    with "1.prems" False have "n div 10 < 10 ^ W'" and "0 < W'"
      by (auto simp add: less_mult_imp_div_less intro: Suc_lessI gr0I)
    from "1.IH" [OF False this] W False show ?thesis by (subst Itoa.simps) simp
  qed
qed

lemma Itoa_nonempty: "Itoa n \<noteq> []"
  by (subst Itoa.simps) simp

lemma digitsVal_zeros: "digitsVal 0 (replicate k (CHR ''0'') @ s) = digitsVal 0 s"
  by (induction k) simp_all

lemma isDigit_zero: "isDigit (CHR ''0'')"
  by (simp add: isDigit_def)

lemma Sprintf_0d_length: "n < 10 ^ W \<Longrightarrow> 0 < W \<Longrightarrow> length (Sprintf_0d W n) = W"
  using Itoa_length [of n W] by (simp add: Sprintf_0d_def)

lemma Atoi_digits:
  assumes "s \<noteq> []" and "list_all isDigit s" and "digitsVal 0 s < 2 ^ 63"
  shows "Atoi s = (int (digitsVal 0 s), None)"
proof -
  from assms(1,2) have "isDigit (hd s)" by (cases s) simp_all
  then have sign: "hd s \<noteq> CHR ''-''" "hd s \<noteq> CHR ''+''"
    by (auto simp add: isDigit_def)
  from assms(3) have "int (digitsVal 0 s) < 2 ^ 63"
    by (metis of_nat_less_iff of_nat_numeral of_nat_power)
  with assms(1,2) sign show ?thesis
    by (simp add: Atoi_def Let_def)
qed

lemma Atoi_Sprintf_0d:
  assumes "n < 1000" and "0 < W"
  shows "Atoi (Sprintf_0d W n) = (int n, None)"
proof -
  let ?s = "Sprintf_0d W n"
  have ne: "?s \<noteq> []" by (simp add: Sprintf_0d_def Itoa_nonempty)
  have dig: "list_all isDigit ?s"
    using Itoa_digits [of n] by (auto simp add: Sprintf_0d_def isDigit_zero list_all_iff)
  have val: "digitsVal 0 ?s = n"
    by (simp add: Sprintf_0d_def digitsVal_zeros Itoa_value)
  from assms(1) have "digitsVal 0 ?s < 2 ^ 63" unfolding val by simp
  from Atoi_digits [OF ne dig this] val show ?thesis by simp
qed

section \<open>The round trip\<close>

lemma slice_mid:
  "slice (pre @ x @ rest) (int (length pre)) (int (length pre) + int (length x)) = Some x"
  by (simp add: slice_def)

lemma padValue_fieldOK:
  assumes "fieldOK fieldConfig val" and "LenType fieldConfig = ''fixed''"
  shows "padValue val (MaxLen fieldConfig) (ContentType fieldConfig) = Some val"
proof -
  from assms have l: "int (length val) = MaxLen fieldConfig" and m: "MaxLen fieldConfig \<le> 1000000"
    and a: "isASCII val"
    by (simp_all add: fieldOK_def)
  from l have n: "nat \<bar>MaxLen fieldConfig\<bar> = length val" by linarith
  from l m have "\<not> MaxLen fieldConfig < - 1000000" "\<not> MaxLen fieldConfig < 0" by linarith+
  with l m n RuneCount_ascii [OF a] show ?thesis
    by (simp add: padValue_def Sprintf_pad_def Let_def)
qed

lemma parseField_fixed_composed:
  assumes "cfg i = Some fieldConfig" and "LenType fieldConfig = ''fixed''"
    and "int (length v) = MaxLen fieldConfig"
  shows "parseField cfg (pre @ v @ rest) i (int (length pre)) acc
           = (Ok (int (length (pre @ v))), AList.update i v acc)"
  using assms slice_mid [of pre v rest] by (simp add: parseField_def)

lemma parseVar_composed:
  assumes "length v < 10 ^ W" and "0 < W" and "W \<le> 3"
  shows "parseVar (int W) (pre @ (Sprintf_0d W (length v) @ v) @ rest) i (int (length pre)) acc
           = (Ok (int (length (pre @ Sprintf_0d W (length v) @ v))), AList.update i v acc)"
proof -
  let ?p = "Sprintf_0d W (length v)"
  have lp: "length ?p = W" by (rule Sprintf_0d_length [OF assms(1,2)])
  from assms(1,3) have "length v < 10 ^ 3"
    by (meson less_le_trans numeral_One one_le_numeral power_increasing)
  then have "length v < 1000" by simp
  from Atoi_Sprintf_0d [OF this assms(2)] have at: "fst (Atoi ?p) = int (length v)" by simp
  have s1: "slice (pre @ (?p @ v) @ rest) (int (length pre)) (int (length pre) + int W) = Some ?p"
    using slice_mid [of pre ?p "v @ rest"] by (simp add: lp)
  have s2: "slice (pre @ (?p @ v) @ rest) (int (length pre) + int W)
              (int (length pre) + int W + int (length v)) = Some v"
    using slice_mid [of "pre @ ?p" v rest] by (simp add: lp)
  from s1 s2 at show ?thesis by (simp add: parseVar_def lp)
qed

lemma roundtrip_fields:
  assumes bits: "\<And>k. 2 \<le> k \<Longrightarrow> k \<le> 128 \<Longrightarrow> bitTest bm k = Some (k \<in> dom (map_of els))"
    and ok: "\<And>k v. 2 \<le> k \<Longrightarrow> map_of els k = Some v \<Longrightarrow> \<exists>fieldConfig. cfg k = Some fieldConfig \<and> fieldOK fieldConfig v"
  shows "2 \<le> i \<Longrightarrow>
    \<exists>tail. (\<forall>pre. composeFields cfg els i pre = Ok (pre @ tail))
         \<and> (\<forall>pre acc. \<exists>acc'.
               parseFields cfg (pre @ tail) bm i (int (length pre)) acc
                 = (Ok (int (length (pre @ tail))), acc')
             \<and> (\<forall>k. map_of acc' k =
                     (if i \<le> k \<and> k \<le> 128 \<and> k \<in> dom (map_of els) then map_of els k
                      else map_of acc k)))"
proof (induction "nat (129 - i)" arbitrary: i)
  case 0
  then have "128 < i" by simp
  then show ?case by (intro exI [of _ "[]"]) (auto simp add: composeFields_done parseFields_done)
next
  case (Suc n)
  then have le: "i \<le> 128" and n: "n = nat (129 - (i + 1))" and i2: "2 \<le> i" "2 \<le> i + 1"
    by simp_all
  from Suc.hyps(1) [OF n i2(2)] obtain tail'
    where comp: "\<And>pre. composeFields cfg els (i + 1) pre = Ok (pre @ tail')"
      and parse: "\<And>pre acc. \<exists>acc'.
               parseFields cfg (pre @ tail') bm (i + 1) (int (length pre)) acc
                 = (Ok (int (length (pre @ tail'))), acc')
             \<and> (\<forall>k. map_of acc' k =
                     (if i + 1 \<le> k \<and> k \<le> 128 \<and> k \<in> dom (map_of els) then map_of els k
                      else map_of acc k))"
    by blast
  show ?case
  proof (cases "map_of els i")
    case None
    then have bit: "bitTest bm i = Some False" using bits [OF i2(1) le] by (simp add: dom_def)
    have "\<forall>pre. composeFields cfg els i pre = Ok (pre @ tail')"
      using None comp by (simp add: composeFields_step [OF le])
    moreover have "\<exists>acc'. parseFields cfg (pre @ tail') bm i (int (length pre)) acc
                 = (Ok (int (length (pre @ tail'))), acc')
             \<and> (\<forall>k. map_of acc' k =
                     (if i \<le> k \<and> k \<le> 128 \<and> k \<in> dom (map_of els) then map_of els k
                      else map_of acc k))" for pre acc
    proof -
      from parse [of pre acc] obtain acc' where
        p: "parseFields cfg (pre @ tail') bm (i + 1) (int (length pre)) acc
                 = (Ok (int (length (pre @ tail'))), acc')"
        and m: "\<And>k. map_of acc' k =
                     (if i + 1 \<le> k \<and> k \<le> 128 \<and> k \<in> dom (map_of els) then map_of els k
                      else map_of acc k)"
        by blast
      have "map_of acc' k =
                     (if i \<le> k \<and> k \<le> 128 \<and> k \<in> dom (map_of els) then map_of els k
                      else map_of acc k)" for k
        using m [of k] None by (cases "k = i") (auto simp add: dom_def)
      with p bit le show ?thesis by (simp add: parseFields_skip)
    qed
    ultimately show ?thesis by blast
  next
    case (Some v)
    from ok [OF i2(1) Some] obtain fieldConfig where c: "cfg i = Some fieldConfig"
      and f: "fieldOK fieldConfig v" by blast
    from Some have bit: "bitTest bm i = Some True" using bits [OF i2(1) le] by (simp add: dom_def)
    \<comment> \<open>the text of field \<open>i\<close> in the message\<close>
    define x where "x = (if LenType fieldConfig = ''fixed'' then v
                          else if LenType fieldConfig = ''llvar'' then Sprintf_0d 2 (length v) @ v
                          else Sprintf_0d 3 (length v) @ v)"
    have cstep: "composeFields cfg els i pre = composeFields cfg els (i + 1) (pre @ x)" for pre
      using Some c f padValue_fieldOK [OF f]
      by (auto simp add: composeFields_step [OF le] x_def fieldOK_def split: if_splits)
    have pstep: "parseField cfg (pre @ x @ rest) i (int (length pre)) acc
                   = (Ok (int (length (pre @ x))), AList.update i v acc)" for pre rest acc
    proof (cases "LenType fieldConfig = ''fixed''")
      case True
      with f have "int (length v) = MaxLen fieldConfig" by (simp add: fieldOK_def)
      from parseField_fixed_composed [where cfg = cfg and i = i, OF c True this] True
      show ?thesis by (simp add: x_def)
    next
      case nf: False
      show ?thesis
      proof (cases "LenType fieldConfig = ''llvar''")
        case True
        with f nf have "length v < 10 ^ 2" by (simp add: fieldOK_def)
        from parseVar_composed [OF this, of pre rest i acc] c nf True show ?thesis
          by (simp add: parseField_def x_def)
      next
        case False
        with f nf have l3: "LenType fieldConfig = ''lllvar''" and "length v < 10 ^ 3"
          by (simp_all add: fieldOK_def)
        from parseVar_composed [OF this(2), of pre rest i acc] c nf False l3 show ?thesis
          by (simp add: parseField_def x_def)
      qed
    qed
    have "\<forall>pre. composeFields cfg els i pre = Ok (pre @ x @ tail')"
      using cstep comp by simp
    moreover have "\<exists>acc'. parseFields cfg (pre @ x @ tail') bm i (int (length pre)) acc
                 = (Ok (int (length (pre @ x @ tail'))), acc')
             \<and> (\<forall>k. map_of acc' k =
                     (if i \<le> k \<and> k \<le> 128 \<and> k \<in> dom (map_of els) then map_of els k
                      else map_of acc k))" for pre acc
    proof -
      from parse [of "pre @ x" "AList.update i v acc"] obtain acc' where
        p: "parseFields cfg ((pre @ x) @ tail') bm (i + 1) (int (length (pre @ x)))
              (AList.update i v acc) = (Ok (int (length ((pre @ x) @ tail'))), acc')"
        and m: "\<And>k. map_of acc' k =
                     (if i + 1 \<le> k \<and> k \<le> 128 \<and> k \<in> dom (map_of els) then map_of els k
                      else map_of (AList.update i v acc) k)"
        by blast
      have "map_of acc' k =
                     (if i \<le> k \<and> k \<le> 128 \<and> k \<in> dom (map_of els) then map_of els k
                      else map_of acc k)" for k
        using m [of k] Some le by (cases "k = i") (auto simp add: update_conv')
      moreover from p pstep [of pre tail' acc] bit le
      have "parseFields cfg (pre @ x @ tail') bm i (int (length pre)) acc
                 = (Ok (int (length (pre @ x @ tail'))), acc')"
        by (simp add: parseFields_field)
      ultimately show ?thesis by blast
    qed
    ultimately show ?thesis by blast
  qed
qed

text \<open>
  Where the round trip does hold. Let the schema read the MTI with the length of the
  stored MTI and the bitmap with 32 hexadecimal digits, let the keys of the map lie in 0
  to 128 with one of them above 64 (so that \<open>ComposeMessage\<close> emits the bitmap of 16
  bytes), and let every field from 2 on have a schema entry that its value fits. Then
  \<open>ComposeMessage\<close> succeeds, and \<open>Parse\<close> of its output on a fresh object succeeds
  with every field but field 1 equal to the original; field 1 is the text of the
  composed bitmap.
\<close>

theorem compose_parse_roundtrip:
  assumes "isoConfig 0 = Some mtiConfig" and "map_of els 0 = Some mti"
    and "int (length mti) = MaxLen mtiConfig"
    and "isoConfig 1 = Some bitmapConfig" and "MaxLen bitmapConfig = 32"
    and "\<exists>k \<in> dom (map_of els). 64 < k"
    and "\<forall>k \<in> dom (map_of els). 0 \<le> k \<and> k \<le> 128"
    and "\<forall>k v. 2 \<le> k \<and> map_of els k = Some v \<longrightarrow>
           (\<exists>fieldConfig. isoConfig k = Some fieldConfig \<and> fieldOK fieldConfig v)"
  shows "\<exists>out els' bitmap.
           ComposeMessage isoConfig els = Ok out
         \<and> Parse isoConfig out [] = (Ok (), els')
         \<and> (\<forall>k. k \<noteq> 1 \<longrightarrow> map_of els' k = map_of els k)
         \<and> composeBitmap els = Some bitmap
         \<and> map_of els' 1 = Some (ToUpper (EncodeToString bitmap))"
proof -
  have keys: "dom (map_of els) = fst ` set els" by (rule dom_map_of_conv_image_fst)
  from assms(7) have "\<forall>k \<in> fst ` set els. k \<le> 128" by (simp add: keys)
  from composeBitmap_bits [OF this] assms(6) obtain bm where bm: "composeBitmap els = Some bm"
    and len: "length bm = 16"
    and bits: "\<And>i. 1 \<le> i \<Longrightarrow> i \<le> 8 * int (length bm) \<Longrightarrow>
                 bitTest bm i = Some (((\<exists>k \<in> fst ` set els. 64 < k) \<and> i = 1)
                                       \<or> (1 < i \<and> i \<in> fst ` set els))"
    unfolding keys by auto
  have bit: "bitTest bm k = Some (k \<in> dom (map_of els))" if "2 \<le> k" "k \<le> 128" for k
    using bits [of k] that len by (simp add: keys)
  have ok: "\<exists>fieldConfig. isoConfig k = Some fieldConfig \<and> fieldOK fieldConfig v"
    if "2 \<le> k" "map_of els k = Some v" for k v
    using assms(8) that by blast
  have "(2 :: int) \<le> 2" by simp
  from roundtrip_fields [of bm els isoConfig 2, OF bit ok this] obtain tail
    where comp: "\<And>pre. composeFields isoConfig els 2 pre = Ok (pre @ tail)"
      and parse: "\<And>pre acc. \<exists>acc'.
               parseFields isoConfig (pre @ tail) bm 2 (int (length pre)) acc
                 = (Ok (int (length (pre @ tail))), acc')
             \<and> (\<forall>k. map_of acc' k =
                     (if 2 \<le> k \<and> k \<le> 128 \<and> k \<in> dom (map_of els) then map_of els k
                      else map_of acc k))"
    by blast
  let ?hex = "ToUpper (EncodeToString bm)"
  let ?out = "(mti @ ?hex) @ tail"
  let ?acc = "AList.update 1 ?hex (AList.update 0 mti [])"
  have lh: "int (length ?hex) = 32" by (simp add: length_hex len)
  from assms(2) have ne: "els \<noteq> []" by auto
  with assms(2) bm comp have c: "ComposeMessage isoConfig els = Ok ?out"
    by (simp add: ComposeMessage_def)
  from parse [of "mti @ ?hex" ?acc] obtain els'
    where p: "parseFields isoConfig ?out bm 2 (int (length (mti @ ?hex))) ?acc
                = (Ok (int (length ?out)), els')"
      and m: "\<And>k. map_of els' k =
                     (if 2 \<le> k \<and> k \<le> 128 \<and> k \<in> dom (map_of els) then map_of els k
                      else map_of ?acc k)"
    by blast
  have s0: "slice ?out 0 (MaxLen mtiConfig) = Some mti"
    using slice_mid [of "[]" mti "?hex @ tail"] assms(3) by simp
  have s1: "slice ?out (MaxLen mtiConfig) (MaxLen mtiConfig + MaxLen bitmapConfig) = Some ?hex"
    using slice_mid [of mti ?hex tail] assms(3,5) lh by simp
  have pos: "int (length (mti @ ?hex)) = MaxLen mtiConfig + MaxLen bitmapConfig"
    using assms(3,5) lh by simp
  from assms(1,4) s0 s1 hex_roundtrip [of bm] p
  have "Parse_pos isoConfig ?out [] = (Ok (int (length ?out)), els')"
    unfolding pos by (simp add: Parse_pos_def)
  then have P: "Parse isoConfig ?out [] = (Ok (), els')" by (simp add: Parse_def)
  have same: "map_of els' k = map_of els k" if "k \<noteq> 1" for k
  proof (cases "2 \<le> k \<and> k \<le> 128 \<and> k \<in> dom (map_of els)")
    case True
    with m [of k] show ?thesis by simp
  next
    case False
    show ?thesis
    proof (cases "k = 0")
      case True
      with m [of k] assms(2) show ?thesis by simp
    next
      case k0: False
      with that False assms(7) have "k \<notin> dom (map_of els)" by force
      with m [of k] False k0 that show ?thesis by (auto simp add: dom_def)
    qed
  qed
  have one: "map_of els' 1 = Some ?hex" using m [of 1] by simp
  from c P same bm one show ?thesis by blast
qed

theorem compose_parse_roundtrip_witness:
  "ComposeMessage wideConfig
       [(0, ''0200''), (2, ''4111111111111111''), (3, ''000000''), (70, ''007'')]
     = Ok ''0200E0000000000000000400000000000000164111111111111111000000007''
   \<and> Parse wideConfig ''0200E0000000000000000400000000000000164111111111111111000000007'' []
     = (Ok (), [(0, ''0200''), (1, ''E0000000000000000400000000000000''),
                (2, ''4111111111111111''), (3, ''000000''), (70, ''007'')])"
proof -
  let ?els = "[(0 :: int, ''0200''), (2, ''4111111111111111''), (3, ''000000''), (70, ''007'')]"
  have d: "dom (map_of ?els) = {0, 2, 3, 70}" by auto
  have h1: "wideConfig 0 = Some (fc ''n'' ''fixed'' 4)" by code_simp
  have h2: "map_of ?els 0 = Some ''0200''" by simp
  have h3: "int (length ''0200'') = MaxLen (fc ''n'' ''fixed'' 4)" by (simp add: fc_def)
  have h4: "wideConfig 1 = Some (fc ''x'' ''fixed'' 32)" by code_simp
  have h5: "MaxLen (fc ''x'' ''fixed'' 32) = 32" by (simp add: fc_def)
  have h6: "\<exists>k \<in> dom (map_of ?els). 64 < k" unfolding d by simp
  have h7: "\<forall>k \<in> dom (map_of ?els). 0 \<le> k \<and> k \<le> 128" unfolding d by simp
  have f2: "wideConfig 2 = Some (fc ''n'' ''llvar'' 19) \<and> fieldOK (fc ''n'' ''llvar'' 19) ''4111111111111111''"
    by code_simp
  have f3: "wideConfig 3 = Some (fc ''n'' ''fixed'' 6) \<and> fieldOK (fc ''n'' ''fixed'' 6) ''000000''"
    by code_simp
  have f70: "wideConfig 70 = Some (fc ''n'' ''fixed'' 3) \<and> fieldOK (fc ''n'' ''fixed'' 3) ''007''"
    by code_simp
  have h8: "\<forall>k v. 2 \<le> k \<and> map_of ?els k = Some v \<longrightarrow>
           (\<exists>fieldConfig. wideConfig k = Some fieldConfig \<and> fieldOK fieldConfig v)"
    using f2 f3 f70 by (auto split: if_splits)
  have c: "ComposeMessage wideConfig ?els
     = Ok ''0200E0000000000000000400000000000000164111111111111111000000007''"
    by code_simp
  have p: "snd (Parse wideConfig ''0200E0000000000000000400000000000000164111111111111111000000007'' [])
     = [(0, ''0200''), (1, ''E0000000000000000400000000000000''),
                (2, ''4111111111111111''), (3, ''000000''), (70, ''007'')]"
    by code_simp
  from compose_parse_roundtrip [where isoConfig = wideConfig and els = ?els,
      OF h1 h2 h3 h4 h5 h6 h7 h8]
  obtain out els' where "ComposeMessage wideConfig ?els = Ok out"
    and "Parse wideConfig out [] = (Ok (), els')"
    by blast
  with c p show ?thesis by auto
qed

end
